theory Spec2Isabelle
  imports Main "HOL-Library.Multiset"
begin

section \<open>Data model of gsttaskpool.c\<close>

text \<open>
  A \<open>gpointer\<close> is a nullable handle: \<open>None\<close> is \<open>NULL\<close>.  A \<open>GError **\<close> argument is
  either \<open>NULL\<close> (the caller ignores errors) or the address of a \<open>GError *\<close> variable,
  whose content is \<open>NULL\<close> until an error is reported.
\<close>

type_synonym gpointer = "nat option"

type_synonym GError = nat

datatype errloc = NullLoc | Loc "GError option"

text \<open>\<open>TaskData\<close>: the callable and its payload, both opaque.\<close>

record TaskData =
  func :: nat
  user_data :: nat

text \<open>
  The state of a \<open>GThreadPool\<close> of GLib as far as the callers in gsttaskpool.c can
  observe it: the configuration given to \<open>g_thread_pool_new\<close>, the number of worker
  threads it has, the tasks not yet taken by a worker thread, and the tasks a worker thread
  is executing.
\<close>

record GThreadPool =
  tp_max_threads :: int
  tp_exclusive :: bool
  tp_num_threads :: nat
  tp_queue :: "TaskData list"
  tp_running :: "TaskData list"

text \<open>\<open>struct _GstTaskPoolPrivate\<close>, without the mutex and the condition variable.\<close>

record GstTaskPoolPrivate =
  max_threads :: int
  exclusive :: bool
  need_schedule_thread :: int
  schedule_context :: "nat option"
  schedule_loop :: "nat option"
  schedule_thread :: "nat option"

text \<open>
  \<open>GstTaskPoolClass\<close>: the four virtual methods.  A slot is \<open>NULL\<close> (\<open>None\<close>) or holds the
  implementation of this file that \<open>gst_task_pool_class_init\<close> installs.
\<close>

datatype vfunc = Inherited

record GstTaskPoolClass =
  klass_prepare :: "vfunc option"
  klass_cleanup :: "vfunc option"
  klass_push :: "vfunc option"
  klass_join :: "vfunc option"

text \<open>
  A \<open>GstTaskPool\<close> instance: the reference count of the \<open>GObject\<close>, its class, the
  public field \<open>pool\<close> (the \<open>GThreadPool *\<close>, \<open>NULL\<close> when there is no backend) and the
  private structure.
\<close>

record GstTaskPool =
  ref_count :: nat
  klass :: GstTaskPoolClass
  pool :: "GThreadPool option"
  priv :: GstTaskPoolPrivate

text \<open>
  The schedule thread started by \<open>g_thread_new\<close> is \<open>Started\<close> until it has entered
  \<open>g_main_loop_run\<close> on the loop of its pool (\<open>Looping\<close>); \<open>Exited\<close> when its
  function has returned without running a loop.
\<close>

datatype tstate = Started | Looping nat | Exited

text \<open>How a \<open>g_cond_wait\<close> ends: by the signal it waits for, or spuriously.\<close>

datatype wake = Signalled | Spurious

text \<open>
  The process: the objects by address, the allocator, the static variable of
  \<open>gst_task_pool_get_default\<close>, and what GLib and the operating system hold.
  \<^item> \<open>invoked\<close>: the calls \<open>func (user_data)\<close> made so far, in order;
  \<^item> \<open>completed\<close>: those of them that have returned, in the order of their return;
  \<^item> \<open>detached\<close>: thread pools that nothing points to any more but that still hold tasks;
  \<^item> \<open>contexts\<close>: the live \<open>GMainContext\<close>s with their reference counts;
  \<^item> \<open>loops\<close>: the live \<open>GMainLoop\<close>s, each with its context and its \<open>is_running\<close> flag;
  \<^item> \<open>threads\<close>: the schedule threads created and not yet joined;
  \<^item> \<open>criticals\<close>: how many \<open>g_return_if_fail\<close> checks have failed (each logs a critical
    warning and returns);
  \<^item> \<open>warnings\<close>: how many \<open>g_warning\<close> messages were logged;
  \<^item> \<open>os_spawn\<close>, \<open>os_wake\<close>: what the operating system will answer to the next
    attempts to create a worker thread and to the next waits on a condition variable
    (an empty list: no failure, no spurious wake-up).
\<close>

record world =
  heap :: "nat \<rightharpoonup> GstTaskPool"
  next_addr :: nat
  default_pool :: "nat option"
  invoked :: "(nat \<times> nat) list"
  completed :: "(nat \<times> nat) list"
  detached :: "GThreadPool list"
  contexts :: "nat \<rightharpoonup> nat"
  loops :: "nat \<rightharpoonup> (nat \<times> bool)"
  threads :: "nat \<rightharpoonup> tstate"
  criticals :: nat
  warnings :: nat
  os_spawn :: "GError option list"
  os_wake :: "wake list"

text \<open>
  Undefined behaviour and blocking forever are results of their own.  They come with the
  state the process is in at that point: for a call that blocks, the state it is stuck in.
\<close>

datatype fault = SignedOverflow | InvalidPointer | JoinBlocks | FreeBlocks

type_synonym 'a result = "(fault \<times> world) + 'a"

section \<open>The GLib primitives the file calls\<close>

text \<open>
  GLib is not part of the repository.  The definitions of this section state the
  behaviour its reference manual documents for the calls gsttaskpool.c makes.
\<close>

definition g_critical :: "world \<Rightarrow> world" where
  "g_critical w = w\<lparr>criticals := Suc (criticals w)\<rparr>"

definition g_warning :: "world \<Rightarrow> world" where
  "g_warning w = w\<lparr>warnings := Suc (warnings w)\<rparr>"

definition g_propagate_error :: "errloc \<Rightarrow> GError \<Rightarrow> errloc" where
  "g_propagate_error dest e = (case dest of NullLoc \<Rightarrow> NullLoc | Loc _ \<Rightarrow> Loc (Some e))"

text \<open>
  An attempt to create a worker thread: it succeeds unless the next answer of the
  operating system is an error, which is then reported.
\<close>

definition g_thread_try_new :: "errloc \<Rightarrow> world \<Rightarrow> bool \<times> errloc \<times> world" where
  "g_thread_try_new err w =
     (case os_spawn w of
        [] \<Rightarrow> (True, err, w)
      | None # rest \<Rightarrow> (True, err, w\<lparr>os_spawn := rest\<rparr>)
      | Some e # rest \<Rightarrow> (False, g_propagate_error err e, w\<lparr>os_spawn := rest\<rparr>))"

text \<open>Creating up to \<open>n\<close> threads, stopping at the first failure; the number created.\<close>

fun start_threads :: "nat \<Rightarrow> errloc \<Rightarrow> world \<Rightarrow> nat \<times> errloc \<times> world" where
  "start_threads 0 err w = (0, err, w)"
| "start_threads (Suc n) err w =
     (case g_thread_try_new err w of
        (True, err', w') \<Rightarrow> (let (k, err'', w'') = start_threads n err' w' in (Suc k, err'', w''))
      | (False, err', w') \<Rightarrow> (0, err', w'))"

text \<open>
  \<open>g_thread_pool_new (func, user_data, max_threads, exclusive, error)\<close>: \<open>max_threads\<close>
  must be at least \<open>-1\<close> (no limit), and an exclusive pool needs a limit; otherwise the
  call is refused and returns \<open>NULL\<close>.  An exclusive pool creates its \<open>max_threads\<close> threads
  at once; an error is reported only when not all of them could be created, and the pool
  is returned all the same.  Any other pool starts without threads.
\<close>

definition g_thread_pool_new ::
    "int \<Rightarrow> bool \<Rightarrow> errloc \<Rightarrow> world \<Rightarrow> GThreadPool option \<times> errloc \<times> world" where
  "g_thread_pool_new m x err w =
     (if m < - 1 \<or> (x \<and> m = - 1) then (None, err, g_critical w)
      else
        let tp = \<lparr>tp_max_threads = m, tp_exclusive = x, tp_num_threads = 0,
                  tp_queue = [], tp_running = []\<rparr>
        in if x
           then (let (k, err', w') = start_threads (nat m) err w
                 in (Some (tp\<lparr>tp_num_threads := k\<rparr>), err', w'))
           else (Some tp, err, w))"

text \<open>
  A pool starts one more thread unless it has reached its limit; the error of a failed
  attempt is reported.
\<close>

definition g_thread_pool_start_thread ::
    "GThreadPool \<Rightarrow> errloc \<Rightarrow> world \<Rightarrow> GThreadPool \<times> errloc \<times> world" where
  "g_thread_pool_start_thread tp err w =
     (if tp_max_threads tp \<noteq> - 1 \<and> tp_max_threads tp \<le> int (tp_num_threads tp)
      then (tp, err, w)
      else
        (case g_thread_try_new err w of
           (True, err', w') \<Rightarrow> (tp\<lparr>tp_num_threads := Suc (tp_num_threads tp)\<rparr>, err', w')
         | (False, err', w') \<Rightarrow> (tp, err', w')))"

text \<open>
  \<open>g_thread_pool_push (pool, data, error)\<close>: when no thread of the pool is waiting for
  work, the pool tries to start one.  An error is reported only when a new thread could not
  be created.  The data is appended to the queue in either case.
\<close>

definition g_thread_pool_push ::
    "GThreadPool \<Rightarrow> TaskData \<Rightarrow> errloc \<Rightarrow> world \<Rightarrow> GThreadPool \<times> errloc \<times> world" where
  "g_thread_pool_push tp tdata err w =
     (let (tp', err', w') =
            (if int (tp_num_threads tp) - int (length (tp_running tp))
                  \<le> int (length (tp_queue tp))
             then g_thread_pool_start_thread tp err w
             else (tp, err, w))
      in (tp'\<lparr>tp_queue := tp_queue tp' @ [tdata]\<rparr>, err', w'))"

section \<open>The default backend\<close>

text \<open>
  \<open>default_func\<close>: the function every worker thread runs on a task.  It frees the
  \<open>TaskData\<close> and calls \<open>func (user_data)\<close>.  The model records when the call is made
  (\<open>default_func_call\<close>) and when it has returned (\<open>default_func_return\<close>); a thread is
  inside \<open>default_func\<close> in between, and \<open>default_func\<close> is the function run from its
  first line to its last.  The job's function is taken to return.  The pool argument is
  not used, as in the source.
\<close>

definition default_func_call :: "TaskData \<Rightarrow> world \<Rightarrow> world" where
  "default_func_call tdata w = w\<lparr>invoked := invoked w @ [(func tdata, user_data tdata)]\<rparr>"

definition default_func_return :: "TaskData \<Rightarrow> world \<Rightarrow> world" where
  "default_func_return tdata w =
     w\<lparr>completed := completed w @ [(func tdata, user_data tdata)]\<rparr>"

definition default_func :: "TaskData \<Rightarrow> world \<Rightarrow> world" where
  "default_func tdata w = default_func_return tdata (default_func_call tdata w)"

text \<open>
  GLib's \<open>g_thread_pool_free (pool, immediate, wait_)\<close>, placed here because it runs
  \<open>default_func\<close> on the tasks it processes.  With \<open>immediate\<close> the tasks still in
  the queue are dropped, otherwise they are all processed; with \<open>wait_\<close> the call returns
  only when the tasks the threads are executing and every task to be processed have
  finished, otherwise it returns at once and the pool goes on in the background.  A pool
  with no threads allowed (\<open>max_threads = 0\<close>) and a queue that is not empty is refused
  unless \<open>immediate\<close> is set: it is left as it is.
  Tasks are processed by the threads of the pool: a pool that has tasks to process and no
  thread never finishes them, and a call that waits for them never returns.
\<close>

definition g_thread_pool_free ::
    "GThreadPool \<Rightarrow> bool \<Rightarrow> bool \<Rightarrow> world \<Rightarrow> world result" where
  "g_thread_pool_free tp immediate wait w =
     (if \<not> immediate \<and> tp_max_threads tp = 0 \<and> tp_queue tp \<noteq> []
      then Inr ((g_critical w)\<lparr>detached := detached w @ [tp]\<rparr>)
      else
        let todo = (if immediate then [] else tp_queue tp)
        in if wait then
             (if todo \<noteq> [] \<and> tp_num_threads tp = 0 then Inl (FreeBlocks, w)
              else Inr (fold default_func todo (fold default_func_return (tp_running tp) w)))
           else Inr (w\<lparr>detached := detached w @ [tp\<lparr>tp_queue := todo\<rparr>]\<rparr>))"

text \<open>
  \<open>default_prepare\<close>: the new thread pool is stored in \<open>pool->pool\<close>.  The source passes
  \<open>NULL\<close> as the error location of \<open>g_thread_pool_new\<close>, so its own \<open>error\<close> argument is
  returned as it came.  A thread pool already stored is overwritten and goes on by itself.
\<close>

definition default_prepare ::
    "GstTaskPool \<Rightarrow> errloc \<Rightarrow> world \<Rightarrow> GstTaskPool \<times> errloc \<times> world" where
  "default_prepare p error w =
     (let (tp, _, w') =
            g_thread_pool_new (max_threads (priv p)) (exclusive (priv p)) NullLoc w;
          w'' = (case pool p of None \<Rightarrow> w' | Some old \<Rightarrow> w'\<lparr>detached := detached w' @ [old]\<rparr>)
      in (p\<lparr>pool := tp\<rparr>, error, w''))"

definition default_cleanup :: "GstTaskPool \<Rightarrow> world \<Rightarrow> (GstTaskPool \<times> world) result" where
  "default_cleanup p w =
     (case pool p of
        Some tp \<Rightarrow>
          (case g_thread_pool_free tp False True w of
             Inl f \<Rightarrow> Inl f
           | Inr w' \<Rightarrow> Inr (p\<lparr>pool := None\<rparr>, w'))
      | None \<Rightarrow> Inr (p, w))"

text \<open>\<open>default_push\<close> returns the handle, the pool, the error location and the process.\<close>

definition default_push ::
    "GstTaskPool \<Rightarrow> nat \<Rightarrow> nat \<Rightarrow> errloc \<Rightarrow> world
      \<Rightarrow> gpointer \<times> GstTaskPool \<times> errloc \<times> world" where
  "default_push p f d error w =
     (let tdata = \<lparr>func = f, user_data = d\<rparr>
      in case pool p of
           Some tp \<Rightarrow>
             (let (tp', error', w') = g_thread_pool_push tp tdata error w
              in (None, p\<lparr>pool := Some tp'\<rparr>, error', w'))
         | None \<Rightarrow> (None, p, error, w))"

definition default_join :: "GstTaskPool \<Rightarrow> gpointer \<Rightarrow> world \<Rightarrow> GstTaskPool \<times> world" where
  "default_join p ident w = (p, w)"

text \<open>
  What the worker threads of a GLib thread pool do, one step at a time.  A thread that is
  not executing a task takes the head of the queue and calls the pool's
  function, \<open>default_func\<close>, on it; later the call returns and the task is finished.  A
  thread of a pool that is not exclusive leaves the pool when it has waited for work in
  vain.  When these steps happen between the calls of the program is up to the scheduler.
\<close>

definition worker_start :: "GstTaskPool \<Rightarrow> world \<Rightarrow> GstTaskPool \<times> world" where
  "worker_start p w =
     (case pool p of
        None \<Rightarrow> (p, w)
      | Some tp \<Rightarrow>
          (case tp_queue tp of
             [] \<Rightarrow> (p, w)
           | t # q \<Rightarrow>
               if length (tp_running tp) < tp_num_threads tp
               then (p\<lparr>pool := Some (tp\<lparr>tp_queue := q, tp_running := tp_running tp @ [t]\<rparr>)\<rparr>,
                     default_func_call t w)
               else (p, w)))"

definition worker_finish :: "nat \<Rightarrow> GstTaskPool \<Rightarrow> world \<Rightarrow> GstTaskPool \<times> world" where
  "worker_finish i p w =
     (case pool p of
        None \<Rightarrow> (p, w)
      | Some tp \<Rightarrow>
          if i < length (tp_running tp)
          then (p\<lparr>pool := Some (tp\<lparr>tp_running :=
                       take i (tp_running tp) @ drop (Suc i) (tp_running tp)\<rparr>)\<rparr>,
                default_func_return (tp_running tp ! i) w)
          else (p, w))"

definition worker_leave :: "GstTaskPool \<Rightarrow> GstTaskPool" where
  "worker_leave p =
     (case pool p of
        None \<Rightarrow> p
      | Some tp \<Rightarrow>
          if \<not> tp_exclusive tp \<and> tp_queue tp = [] \<and> length (tp_running tp) < tp_num_threads tp
          then p\<lparr>pool := Some (tp\<lparr>tp_num_threads := tp_num_threads tp - 1\<rparr>)\<rparr>
          else p)"

section \<open>Objects\<close>

definition update_pool :: "nat \<Rightarrow> (GstTaskPool \<Rightarrow> GstTaskPool) \<Rightarrow> world \<Rightarrow> world" where
  "update_pool a f w =
     (case heap w a of None \<Rightarrow> w | Some p \<Rightarrow> w\<lparr>heap := (heap w)(a \<mapsto> f p)\<rparr>)"

definition gst_task_pool_class_init :: GstTaskPoolClass where
  "gst_task_pool_class_init =
     \<lparr>klass_prepare = Some Inherited, klass_cleanup = Some Inherited,
      klass_push = Some Inherited, klass_join = Some Inherited\<rparr>"

definition gst_task_pool_init :: GstTaskPool where
  "gst_task_pool_init =
     \<lparr>ref_count = 1, klass = gst_task_pool_class_init, pool = None,
      priv = \<lparr>max_threads = - 1, exclusive = False, need_schedule_thread = 0,
              schedule_context = None, schedule_loop = None, schedule_thread = None\<rparr>\<rparr>"

text \<open>\<open>g_object_newv (GST_TYPE_TASK_POOL, 0, NULL)\<close>: a new instance at a fresh address.\<close>

definition g_object_newv :: "world \<Rightarrow> nat \<times> world" where
  "g_object_newv w =
     (next_addr w,
      w\<lparr>heap := (heap w)(next_addr w \<mapsto> gst_task_pool_init), next_addr := Suc (next_addr w)\<rparr>)"

text \<open>
  \<open>gst_task_pool_finalize\<close>, run when the last reference goes: the instance is freed.  The
  thread pool it may still point to is not.
\<close>

definition gst_task_pool_finalize :: "nat \<Rightarrow> world \<Rightarrow> world" where
  "gst_task_pool_finalize a w =
     (case heap w a of
        None \<Rightarrow> w
      | Some p \<Rightarrow>
          w\<lparr>heap := (heap w)(a := None),
            detached := detached w @ (case pool p of None \<Rightarrow> [] | Some tp \<Rightarrow> [tp])\<rparr>)"

definition gst_object_ref :: "nat \<Rightarrow> world \<Rightarrow> world" where
  "gst_object_ref a w =
     (case heap w a of
        None \<Rightarrow> g_critical w
      | Some p \<Rightarrow>
          if ref_count p = 0 then g_critical w
          else w\<lparr>heap := (heap w)(a \<mapsto> p\<lparr>ref_count := Suc (ref_count p)\<rparr>)\<rparr>)"

definition gst_object_unref :: "nat \<Rightarrow> world \<Rightarrow> world" where
  "gst_object_unref a w =
     (case heap w a of
        None \<Rightarrow> g_critical w
      | Some p \<Rightarrow>
          if ref_count p = 0 then g_critical w
          else if ref_count p = 1 then gst_task_pool_finalize a w
          else w\<lparr>heap := (heap w)(a \<mapsto> p\<lparr>ref_count := ref_count p - 1\<rparr>)\<rparr>)"

definition gst_task_pool_new :: "world \<Rightarrow> nat \<times> world" where
  "gst_task_pool_new w = g_object_newv w"

definition gst_task_pool_new_full :: "int \<Rightarrow> bool \<Rightarrow> world \<Rightarrow> nat \<times> world" where
  "gst_task_pool_new_full m x w =
     (let (a, w') = g_object_newv w
      in (a, update_pool a (\<lambda>p. p\<lparr>priv := (priv p)\<lparr>max_threads := m, exclusive := x\<rparr>\<rparr>) w'))"

section \<open>The pool interface\<close>

text \<open>
  Each function checks \<open>GST_IS_TASK_POOL (pool)\<close> (the address holds an instance) and calls
  the method of the instance's class when the slot is not \<open>NULL\<close>.
\<close>

definition gst_task_pool_prepare :: "nat \<Rightarrow> errloc \<Rightarrow> world \<Rightarrow> errloc \<times> world" where
  "gst_task_pool_prepare a error w =
     (case heap w a of
        None \<Rightarrow> (error, g_critical w)
      | Some p \<Rightarrow>
          (case klass_prepare (klass p) of
             None \<Rightarrow> (error, w)
           | Some Inherited \<Rightarrow>
               (let (p', error', w') = default_prepare p error w
                in (error', w'\<lparr>heap := (heap w')(a \<mapsto> p')\<rparr>))))"

definition gst_task_pool_cleanup :: "nat \<Rightarrow> world \<Rightarrow> world result" where
  "gst_task_pool_cleanup a w =
     (case heap w a of
        None \<Rightarrow> Inr (g_critical w)
      | Some p \<Rightarrow>
          (case klass_cleanup (klass p) of
             None \<Rightarrow> Inr w
           | Some Inherited \<Rightarrow>
               (case default_cleanup p w of
                  Inl f \<Rightarrow> Inl f
                | Inr (p', w') \<Rightarrow> Inr (w'\<lparr>heap := (heap w')(a \<mapsto> p')\<rparr>))))"

definition gst_task_pool_push ::
    "nat \<Rightarrow> nat \<Rightarrow> nat \<Rightarrow> errloc \<Rightarrow> world \<Rightarrow> gpointer \<times> errloc \<times> world" where
  "gst_task_pool_push a f d error w =
     (case heap w a of
        None \<Rightarrow> (None, error, g_critical w)
      | Some p \<Rightarrow>
          (case klass_push (klass p) of
             None \<Rightarrow> (None, error, g_warning w)
           | Some Inherited \<Rightarrow>
               (let (h, p', error', w') = default_push p f d error w
                in (h, error', w'\<lparr>heap := (heap w')(a \<mapsto> p')\<rparr>))))"

definition gst_task_pool_join :: "nat \<Rightarrow> gpointer \<Rightarrow> world \<Rightarrow> world" where
  "gst_task_pool_join a ident w =
     (case heap w a of
        None \<Rightarrow> g_critical w
      | Some p \<Rightarrow>
          (case klass_join (klass p) of
             None \<Rightarrow> w
           | Some Inherited \<Rightarrow>
               (let (p', w') = default_join p ident w in w'\<lparr>heap := (heap w')(a \<mapsto> p')\<rparr>)))"

text \<open>The worker steps on the pool at an address.\<close>

definition worker_start_at :: "nat \<Rightarrow> world \<Rightarrow> world" where
  "worker_start_at a w =
     (case heap w a of
        None \<Rightarrow> w
      | Some p \<Rightarrow> (let (p', w') = worker_start p w in w'\<lparr>heap := (heap w')(a \<mapsto> p')\<rparr>))"

definition worker_finish_at :: "nat \<Rightarrow> nat \<Rightarrow> world \<Rightarrow> world" where
  "worker_finish_at a i w =
     (case heap w a of
        None \<Rightarrow> w
      | Some p \<Rightarrow> (let (p', w') = worker_finish i p w in w'\<lparr>heap := (heap w')(a \<mapsto> p')\<rparr>))"

definition worker_leave_at :: "nat \<Rightarrow> world \<Rightarrow> world" where
  "worker_leave_at a w =
     (case heap w a of None \<Rightarrow> w | Some p \<Rightarrow> w\<lparr>heap := (heap w)(a \<mapsto> worker_leave p)\<rparr>)"

section \<open>The default pool\<close>

text \<open>
  \<open>gst_task_pool_get_default\<close>: the static variable \<open>pool\<close> is initialised once, under
  \<open>g_once_init_enter\<close>, with a new prepared pool; every call returns a new reference to it.
\<close>

definition gst_task_pool_get_default :: "world \<Rightarrow> nat \<times> world" where
  "gst_task_pool_get_default w =
     (case default_pool w of
        None \<Rightarrow>
          (let (a, w1) = gst_task_pool_new w;
               (_, w2) = gst_task_pool_prepare a NullLoc w1;
               w3 = w2\<lparr>default_pool := Some a\<rparr>
           in (a, gst_object_ref a w3))
      | Some a \<Rightarrow> (a, gst_object_ref a w))"

section \<open>The schedule thread\<close>

text \<open>Main contexts, main loops and threads of GLib, by handle.\<close>

definition g_main_context_new :: "world \<Rightarrow> nat \<times> world" where
  "g_main_context_new w =
     (next_addr w,
      w\<lparr>next_addr := Suc (next_addr w), contexts := (contexts w)(next_addr w \<mapsto> 1)\<rparr>)"

definition g_main_context_ref :: "nat \<Rightarrow> world \<Rightarrow> world" where
  "g_main_context_ref c w =
     (case contexts w c of
        None \<Rightarrow> g_critical w
      | Some n \<Rightarrow> w\<lparr>contexts := (contexts w)(c \<mapsto> Suc n)\<rparr>)"

definition g_main_context_unref :: "nat option \<Rightarrow> world \<Rightarrow> world" where
  "g_main_context_unref context w =
     (case context of
        None \<Rightarrow> g_critical w
      | Some c \<Rightarrow>
          (case contexts w c of
             None \<Rightarrow> g_critical w
           | Some n \<Rightarrow>
               if n \<le> 1 then w\<lparr>contexts := (contexts w)(c := None)\<rparr>
               else w\<lparr>contexts := (contexts w)(c \<mapsto> n - 1)\<rparr>))"

text \<open>A main loop holds a reference to its context.\<close>

definition g_main_loop_new :: "nat \<Rightarrow> bool \<Rightarrow> world \<Rightarrow> nat \<times> world" where
  "g_main_loop_new c is_running w =
     (let w' = g_main_context_ref c w
      in (next_addr w',
          w'\<lparr>next_addr := Suc (next_addr w'),
             loops := (loops w')(next_addr w' \<mapsto> (c, is_running))\<rparr>))"

definition g_main_loop_quit :: "nat option \<Rightarrow> world \<Rightarrow> world" where
  "g_main_loop_quit loop w =
     (case loop of
        None \<Rightarrow> g_critical w
      | Some l \<Rightarrow>
          (case loops w l of
             None \<Rightarrow> g_critical w
           | Some (c, _) \<Rightarrow> w\<lparr>loops := (loops w)(l \<mapsto> (c, False))\<rparr>))"

definition g_main_loop_unref :: "nat option \<Rightarrow> world \<Rightarrow> world" where
  "g_main_loop_unref loop w =
     (case loop of
        None \<Rightarrow> g_critical w
      | Some l \<Rightarrow>
          (case loops w l of
             None \<Rightarrow> g_critical w
           | Some (c, _) \<Rightarrow> g_main_context_unref (Some c) (w\<lparr>loops := (loops w)(l := None)\<rparr>)))"

definition g_thread_new :: "world \<Rightarrow> nat \<times> world" where
  "g_thread_new w =
     (next_addr w,
      w\<lparr>next_addr := Suc (next_addr w), threads := (threads w)(next_addr w \<mapsto> Started)\<rparr>)"

text \<open>
  \<open>g_thread_join\<close> returns when the thread has ended.  The schedule thread ends when its
  \<open>g_main_loop_run\<close> returns, that is when the loop it is running has been told to quit.
  A thread that has not entered its loop yet will enter it and set \<open>is_running\<close> again,
  so a quit that came before is lost and the join never returns.
\<close>

definition g_thread_join :: "nat option \<Rightarrow> world \<Rightarrow> world result" where
  "g_thread_join thread w =
     (case thread of
        None \<Rightarrow> Inr (g_critical w)
      | Some t \<Rightarrow>
          (case threads w t of
             None \<Rightarrow> Inl (InvalidPointer, w)
           | Some Started \<Rightarrow> Inl (JoinBlocks, w)
           | Some Exited \<Rightarrow> Inr (w\<lparr>threads := (threads w)(t := None)\<rparr>)
           | Some (Looping l) \<Rightarrow>
               (case loops w l of
                  Some (c, True) \<Rightarrow> Inl (JoinBlocks, w)
                | _ \<Rightarrow> Inr (w\<lparr>threads := (threads w)(t := None)\<rparr>))))"

text \<open>
  \<open>main_loop_running_cb\<close>: the idle callback signals \<open>schedule_cond\<close> under
  \<open>schedule_lock\<close> and returns \<open>G_SOURCE_REMOVE\<close> (\<open>FALSE\<close>).  A signal leaves no
  state behind: its effect is that the wait of the enabling caller ends, which
  \<open>g_cond_wait\<close> below expresses.
\<close>

definition main_loop_running_cb :: "world \<Rightarrow> bool \<times> world" where
  "main_loop_running_cb w = (False, w)"

text \<open>
  \<open>gst_task_pool_schedule_func\<close>, the body of the schedule thread \<open>t\<close>, up to the signal:
  it attaches the idle source to \<open>schedule_context\<close> and enters \<open>g_main_loop_run\<close> on
  \<open>schedule_loop\<close>, which sets \<open>is_running\<close> and dispatches the idle source.  Without
  a loop \<open>g_main_loop_run\<close> returns at once and the thread ends.
\<close>

definition gst_task_pool_schedule_func :: "nat \<Rightarrow> GstTaskPoolPrivate \<Rightarrow> world \<Rightarrow> world" where
  "gst_task_pool_schedule_func t pv w =
     (case schedule_loop pv of
        None \<Rightarrow> (g_critical w)\<lparr>threads := (threads w)(t \<mapsto> Exited)\<rparr>
      | Some l \<Rightarrow>
          (case loops w l of
             None \<Rightarrow> (g_critical w)\<lparr>threads := (threads w)(t \<mapsto> Exited)\<rparr>
           | Some (c, _) \<Rightarrow>
               snd (main_loop_running_cb
                 (w\<lparr>loops := (loops w)(l \<mapsto> (c, True)), threads := (threads w)(t \<mapsto> Looping l)\<rparr>))))"

text \<open>
  \<open>g_cond_wait\<close>: the caller sleeps until the condition is signalled, and then the code
  of the signalling thread has run up to its signal; or it wakes up spuriously, and then
  nothing is known to have run.
\<close>

definition g_cond_wait :: "(world \<Rightarrow> world) \<Rightarrow> world \<Rightarrow> world" where
  "g_cond_wait signaller w =
     (case os_wake w of
        [] \<Rightarrow> signaller w
      | Signalled # rest \<Rightarrow> signaller (w\<lparr>os_wake := rest\<rparr>)
      | Spurious # rest \<Rightarrow> w\<lparr>os_wake := rest\<rparr>)"

text \<open>The block of \<open>gst_task_pool_need_schedule_thread\<close> that runs when the count is 0.\<close>

definition schedule_thread_start ::
    "GstTaskPoolPrivate \<Rightarrow> world \<Rightarrow> GstTaskPoolPrivate \<times> world" where
  "schedule_thread_start pv w =
     (let (c, w1) = g_main_context_new w;
          (l, w2) = g_main_loop_new c False w1;
          (t, w3) = g_thread_new w2;
          pv' = pv\<lparr>schedule_context := Some c, schedule_loop := Some l, schedule_thread := Some t\<rparr>
      in (pv', g_cond_wait (gst_task_pool_schedule_func t pv') w3))"

text \<open>The block that runs when the count has dropped to 0.\<close>

definition schedule_thread_stop ::
    "GstTaskPoolPrivate \<Rightarrow> world \<Rightarrow> (GstTaskPoolPrivate \<times> world) result" where
  "schedule_thread_stop pv w =
     (case g_thread_join (schedule_thread pv) (g_main_loop_quit (schedule_loop pv) w) of
        Inl f \<Rightarrow> Inl f
      | Inr w' \<Rightarrow>
          Inr (pv\<lparr>schedule_loop := None, schedule_context := None, schedule_thread := None\<rparr>,
               g_main_context_unref (schedule_context pv)
                 (g_main_loop_unref (schedule_loop pv) w')))"

text \<open>
  \<open>gst_task_pool_need_schedule_thread\<close>.  The count is a \<open>gint\<close>: incrementing it at
  \<open>G_MAXINT\<close> (or decrementing it at \<open>G_MININT\<close>) is undefined.  The fields of the pool
  are written back when a block has run; a disable that blocks in \<open>g_thread_join\<close> has
  written the decremented count and nothing else.
\<close>

definition gst_task_pool_need_schedule_thread ::
    "nat \<Rightarrow> bool \<Rightarrow> world \<Rightarrow> (bool \<times> world) result" where
  "gst_task_pool_need_schedule_thread a needed w =
     (case heap w a of
        None \<Rightarrow> Inr (False, g_critical w)
      | Some p0 \<Rightarrow>
          if \<not> (needed \<or> 0 < need_schedule_thread (priv p0)) then Inr (False, g_critical w)
          else
            let (d, w1) = gst_task_pool_get_default w
            in if a = d then Inr (False, gst_object_unref a w1)
               else
                 (case heap w1 a of
                    None \<Rightarrow> Inl (InvalidPointer, w1)
                  | Some p \<Rightarrow>
                      if needed then
                        (let (pv, w2) =
                               (if need_schedule_thread (priv p) = 0
                                then schedule_thread_start (priv p) w1
                                else (priv p, w1))
                         in if need_schedule_thread pv = 2147483647
                            then Inl (SignedOverflow, w2)
                            else Inr (True,
                              update_pool a (\<lambda>q. q\<lparr>priv :=
                                pv\<lparr>need_schedule_thread := need_schedule_thread pv + 1\<rparr>\<rparr>) w2))
                      else if need_schedule_thread (priv p) = - 2147483648
                        then Inl (SignedOverflow, w1)
                      else
                        (let pv = (priv p)\<lparr>need_schedule_thread :=
                                     need_schedule_thread (priv p) - 1\<rparr>
                         in if need_schedule_thread pv = 0 then
                              (case schedule_thread_stop pv w1 of
                                 Inl (f, w2) \<Rightarrow>
                                   Inl (f, update_pool a (\<lambda>q. q\<lparr>priv := pv\<rparr>) w2)
                               | Inr (pv', w2) \<Rightarrow>
                                   Inr (False, update_pool a (\<lambda>q. q\<lparr>priv := pv'\<rparr>) w2))
                            else Inr (False, update_pool a (\<lambda>q. q\<lparr>priv := pv\<rparr>) w1))))"

definition gst_task_pool_get_schedule_context :: "nat \<Rightarrow> world \<Rightarrow> gpointer \<times> world" where
  "gst_task_pool_get_schedule_context a w =
     (case heap w a of
        None \<Rightarrow> (None, g_critical w)
      | Some p \<Rightarrow>
          if \<not> 0 < need_schedule_thread (priv p) then (None, g_critical w)
          else
            (case schedule_context (priv p) of
               None \<Rightarrow> (None, w)
             | Some c \<Rightarrow> (Some c, g_main_context_ref c w)))"

text \<open>
  The schedule thread of the pool at an address gets to run, if it has been started and has
  not entered its loop yet.
\<close>

definition schedule_thread_runs :: "nat \<Rightarrow> world \<Rightarrow> world" where
  "schedule_thread_runs a w =
     (case heap w a of
        None \<Rightarrow> w
      | Some p \<Rightarrow>
          (case schedule_thread (priv p) of
             None \<Rightarrow> w
           | Some t \<Rightarrow>
               if threads w t = Some Started then gst_task_pool_schedule_func t (priv p) w
               else w))"

section \<open>Runs of the process\<close>

text \<open>
  The calls a client can make on the interface of gsttaskpool.h, and the steps the
  scheduler can take in between.
\<close>

datatype call =
    New
  | NewFull int bool
  | Prepare nat errloc
  | Cleanup nat
  | Push nat nat nat errloc
  | Join nat gpointer
  | NeedScheduleThread nat bool
  | GetScheduleContext nat
  | GetDefault
  | WorkerStart nat
  | WorkerFinish nat nat
  | WorkerLeave nat
  | ScheduleThreadRuns nat

fun step :: "call \<Rightarrow> world \<Rightarrow> world result" where
  "step New w = Inr (snd (gst_task_pool_new w))"
| "step (NewFull m x) w = Inr (snd (gst_task_pool_new_full m x w))"
| "step (Prepare a error) w = Inr (snd (gst_task_pool_prepare a error w))"
| "step (Cleanup a) w = gst_task_pool_cleanup a w"
| "step (Push a f d error) w = Inr (snd (snd (gst_task_pool_push a f d error w)))"
| "step (Join a h) w = Inr (gst_task_pool_join a h w)"
| "step (NeedScheduleThread a needed) w =
     (case gst_task_pool_need_schedule_thread a needed w of
        Inl f \<Rightarrow> Inl f
      | Inr (_, w') \<Rightarrow> Inr w')"
| "step (GetScheduleContext a) w = Inr (snd (gst_task_pool_get_schedule_context a w))"
| "step GetDefault w = Inr (snd (gst_task_pool_get_default w))"
| "step (WorkerStart a) w = Inr (worker_start_at a w)"
| "step (WorkerFinish a i) w = Inr (worker_finish_at a i w)"
| "step (WorkerLeave a) w = Inr (worker_leave_at a w)"
| "step (ScheduleThreadRuns a) w = Inr (schedule_thread_runs a w)"

fun run :: "call list \<Rightarrow> world \<Rightarrow> world result" where
  "run [] w = Inr w"
| "run (c # cs) w = (case step c w of Inl f \<Rightarrow> Inl f | Inr w' \<Rightarrow> run cs w')"

text \<open>The process before any call, with the answers the operating system will give.\<close>

definition process_start :: "GError option list \<Rightarrow> wake list \<Rightarrow> world" where
  "process_start spawn wakes =
     \<lparr>heap = Map.empty, next_addr = 1, default_pool = None, invoked = [], completed = [],
      detached = [],
      contexts = Map.empty, loops = Map.empty, threads = Map.empty, criticals = 0,
      warnings = 0, os_spawn = spawn, os_wake = wakes\<rparr>"

section \<open>States of the schedule-thread manager\<close>

text \<open>
  The pool at \<open>a\<close> is active with count \<open>n\<close>: its three handles are set, the thread is
  in the loop, the loop belongs to the context, and the context is alive.
\<close>

definition schedule_active :: "world \<Rightarrow> nat \<Rightarrow> int \<Rightarrow> nat \<Rightarrow> nat \<Rightarrow> nat \<Rightarrow> bool" where
  "schedule_active w a n c l t =
     (case heap w a of
        None \<Rightarrow> False
      | Some p \<Rightarrow>
          need_schedule_thread (priv p) = n \<and> schedule_context (priv p) = Some c \<and>
          schedule_loop (priv p) = Some l \<and> schedule_thread (priv p) = Some t \<and>
          threads w t = Some (Looping l) \<and> map_option fst (loops w l) = Some c \<and>
          contexts w c \<noteq> None)"

text \<open>The pool at \<open>a\<close> is idle: the count is 0 and the three handles are \<open>NULL\<close>.\<close>

definition schedule_idle :: "world \<Rightarrow> nat \<Rightarrow> bool" where
  "schedule_idle w a =
     (case heap w a of
        None \<Rightarrow> False
      | Some p \<Rightarrow>
          need_schedule_thread (priv p) = 0 \<and> schedule_context (priv p) = None \<and>
          schedule_loop (priv p) = None \<and> schedule_thread (priv p) = None)"

section \<open>Example processes\<close>

text \<open>A process with one pool of its own, at address 1, created by \<open>gst_task_pool_new\<close>.\<close>

definition fresh_pool_world :: world where
  "fresh_pool_world = snd (gst_task_pool_new (process_start [] []))"


text \<open>A process where the default pool, at address 1, has been asked for once.\<close>

definition default_pool_world :: world where
  "default_pool_world = snd (gst_task_pool_get_default (process_start [] []))"

text \<open>
  A process with one pool of its own whose first wait on a condition variable will end
  spuriously.
\<close>

definition spurious_world :: world where
  "spurious_world = snd (gst_task_pool_new (process_start [] [Spurious]))"

text \<open>
  A process with one pool whose configuration \<open>g_thread_pool_new\<close> refuses
  (\<open>gst_task_pool_new_full (-2, FALSE)\<close>), and the pool in it.
\<close>

definition failing_pool_world :: world where
  "failing_pool_world = snd (gst_task_pool_new_full (- 2) False (process_start [] []))"

definition failing_pool :: GstTaskPool where
  "failing_pool = gst_task_pool_init\<lparr>priv :=
     (priv gst_task_pool_init)\<lparr>max_threads := - 2\<rparr>\<rparr>"

text \<open>
  A process with one exclusive pool of two threads, where the operating system will
  refuse to create a thread (error 7).
\<close>

definition exclusive_pool_world :: world where
  "exclusive_pool_world = snd (gst_task_pool_new_full 2 True (process_start [Some 7] []))"

text \<open>
  A process with one prepared pool of the default configuration, where the operating
  system will refuse to create a thread at the next attempt, and the pool in it.
\<close>

definition prepared_pool_world :: world where
  "prepared_pool_world =
     snd (gst_task_pool_prepare 1 NullLoc
       (snd (gst_task_pool_new (process_start [Some 7] []))))"

definition prepared_pool :: GstTaskPool where
  "prepared_pool = gst_task_pool_init\<lparr>pool :=
     Some \<lparr>tp_max_threads = - 1, tp_exclusive = False, tp_num_threads = 0,
           tp_queue = [], tp_running = []\<rparr>\<rparr>"

text \<open>
  A process with one pool of at most two threads that has not been prepared
  (\<open>gst_task_pool_new_full (2, FALSE)\<close>), and the pool in it.
\<close>

definition bounded_pool_world :: world where
  "bounded_pool_world = snd (gst_task_pool_new_full 2 False (process_start [] []))"

definition bounded_pool :: GstTaskPool where
  "bounded_pool = gst_task_pool_init\<lparr>priv :=
     (priv gst_task_pool_init)\<lparr>max_threads := 2, exclusive := False\<rparr>\<rparr>"

text \<open>
  Traffic on pool 1: three pushes, with steps of the worker threads in between.  At its
  end one job has finished, one is being executed and one is in the queue.
\<close>

definition busy_traffic :: "call list" where
  "busy_traffic = [Push 1 7 8 (Loc None), WorkerStart 1, Push 1 9 10 (Loc None),
     Push 1 7 8 NullLoc, WorkerFinish 1 0, WorkerLeave 1, WorkerStart 1]"

section \<open>Traffic on one pool\<close>

text \<open>
  The calls that make up the traffic on the pool at \<open>a\<close>: pushes to it and steps of its
  worker threads.  \<open>pushed_job\<close> is the job a call submits, \<open>queued_jobs\<close> the jobs waiting
  in a thread pool, \<open>running_jobs\<close> the jobs its threads are executing.
\<close>

fun pool_traffic :: "nat \<Rightarrow> call \<Rightarrow> bool" where
  "pool_traffic a (Push b f d error) = (a = b)"
| "pool_traffic a (WorkerStart b) = (a = b)"
| "pool_traffic a (WorkerFinish b i) = (a = b)"
| "pool_traffic a (WorkerLeave b) = (a = b)"
| "pool_traffic a _ = False"

fun pushed_job :: "call \<Rightarrow> (nat \<times> nat) list" where
  "pushed_job (Push b f d error) = [(f, d)]"
| "pushed_job _ = []"

definition queued_jobs :: "GThreadPool \<Rightarrow> (nat \<times> nat) list" where
  "queued_jobs tp = map (\<lambda>t. (func t, user_data t)) (tp_queue tp)"

definition running_jobs :: "GThreadPool \<Rightarrow> (nat \<times> nat) list" where
  "running_jobs tp = map (\<lambda>t. (func t, user_data t)) (tp_running tp)"

text \<open>
  A push succeeds when the pool has a backend to take the job and the call reports no
  error: a caller who passes an empty error location finds it empty after the call.
  \<open>pushes_succeed\<close>: every push of a run does.
\<close>

definition push_succeeds :: "nat \<Rightarrow> nat \<Rightarrow> nat \<Rightarrow> world \<Rightarrow> bool" where
  "push_succeeds a f d w \<longleftrightarrow>
     (case heap w a of
        None \<Rightarrow> False
      | Some p \<Rightarrow>
          pool p \<noteq> None \<and> fst (snd (gst_task_pool_push a f d (Loc None) w)) = Loc None)"

fun call_succeeds :: "call \<Rightarrow> world \<Rightarrow> bool" where
  "call_succeeds (Push a f d error) w = push_succeeds a f d w"
| "call_succeeds _ w = True"

fun pushes_succeed :: "call list \<Rightarrow> world \<Rightarrow> bool" where
  "pushes_succeed [] w = True"
| "pushes_succeed (c # cs) w =
     (call_succeeds c w \<and>
      (case step c w of Inl _ \<Rightarrow> False | Inr w' \<Rightarrow> pushes_succeed cs w'))"

section \<open>The invariant of the schedule-thread manager\<close>

text \<open>The count and the three handles of a pool.\<close>

definition schedule_handles :: "GstTaskPool \<Rightarrow> int \<times> nat option \<times> nat option \<times> nat option" where
  "schedule_handles p =
     (need_schedule_thread (priv p), schedule_context (priv p), schedule_loop (priv p),
      schedule_thread (priv p))"

text \<open>
  A pool is consistent in a process when either its count is positive and it has a
  context, a loop and a thread that are all alive, the loop being a loop of the context,
  or its count is 0 and it has none of the three.
\<close>

definition pool_schedule_ok :: "world \<Rightarrow> GstTaskPool \<Rightarrow> bool" where
  "pool_schedule_ok w p =
     (case schedule_handles p of
        (n, Some c, Some l, Some t) \<Rightarrow>
          0 < n \<and> contexts w c \<noteq> None \<and> map_option fst (loops w l) = Some c \<and>
          threads w t \<noteq> None
      | (n, None, None, None) \<Rightarrow> n = 0
      | _ \<Rightarrow> False)"

text \<open>
  The invariant of a process: every pool lies below the allocator's next address and is
  consistent; every live schedule thread and every live loop is the thread or loop of
  some pool; every live handle lies below the next address; and two pools never share a
  thread, a loop or a context.
\<close>

definition schedule_invariant :: "world \<Rightarrow> bool" where
  "schedule_invariant w \<longleftrightarrow>
     (\<forall>a p. heap w a = Some p \<longrightarrow> a < next_addr w \<and> pool_schedule_ok w p) \<and>
     (\<forall>t. threads w t \<noteq> None \<longrightarrow>
        t < next_addr w \<and> (\<exists>a p. heap w a = Some p \<and> schedule_thread (priv p) = Some t)) \<and>
     (\<forall>l. loops w l \<noteq> None \<longrightarrow>
        l < next_addr w \<and> (\<exists>a p. heap w a = Some p \<and> schedule_loop (priv p) = Some l)) \<and>
     (\<forall>c. contexts w c \<noteq> None \<longrightarrow> c < next_addr w) \<and>
     (\<forall>a b p q. heap w a = Some p \<and> heap w b = Some q \<and> a \<noteq> b \<longrightarrow>
        (\<forall>t. schedule_thread (priv p) = Some t \<longrightarrow> schedule_thread (priv q) \<noteq> Some t) \<and>
        (\<forall>l. schedule_loop (priv p) = Some l \<longrightarrow> schedule_loop (priv q) \<noteq> Some l) \<and>
        (\<forall>c. schedule_context (priv p) = Some c \<longrightarrow> schedule_context (priv q) \<noteq> Some c))"

text \<open>The count of the pool at an address; 0 where there is no pool.\<close>

definition schedule_count :: "world \<Rightarrow> nat \<Rightarrow> int" where
  "schedule_count w a =
     (case heap w a of None \<Rightarrow> 0 | Some p \<Rightarrow> need_schedule_thread (priv p))"

text \<open>
  What a call does not do to the schedule-thread manager.  \<open>schedule_frame\<close>: no live
  thread, loop or context is added or removed, no loop changes its context, every pool
  keeps its count and handles, and a pool that appears is idle.  \<open>schedule_quiet\<close> is the
  part of it that can be observed: all counts and the sets of live threads, loops and
  contexts are the same.
\<close>

definition schedule_frame :: "world \<Rightarrow> world \<Rightarrow> bool" where
  "schedule_frame w w' \<longleftrightarrow>
     next_addr w \<le> next_addr w' \<and>
     dom (threads w') = dom (threads w) \<and>
     (\<forall>l. map_option fst (loops w' l) = map_option fst (loops w l)) \<and>
     dom (contexts w') = dom (contexts w) \<and>
     (\<forall>a. case heap w a of
            Some p \<Rightarrow> (\<exists>p'. heap w' a = Some p' \<and> schedule_handles p' = schedule_handles p)
          | None \<Rightarrow>
              (case heap w' a of
                 None \<Rightarrow> True
               | Some p' \<Rightarrow> a < next_addr w' \<and> schedule_handles p' = (0, None, None, None)))"

definition schedule_quiet :: "world \<Rightarrow> world \<Rightarrow> bool" where
  "schedule_quiet w w' \<longleftrightarrow>
     (\<forall>b. schedule_count w' b = schedule_count w b) \<and>
     dom (threads w') = dom (threads w) \<and> dom (loops w') = dom (loops w) \<and>
     dom (contexts w') = dom (contexts w)"

text \<open>
  What a call can do to it.  \<open>schedule_started\<close>: the call is an enable on a pool with
  count 0; afterwards the count is 1 and the pool holds a context, a loop and a thread that
  did not exist before and are the only ones added; the context has two references, the
  pool's and the loop's.  \<open>schedule_stopped\<close>: the call is a disable on a pool with
  count 1; afterwards the count is 0, the pool's thread and loop are the only ones
  removed, and the pool's context has given up two references, the loop's and the pool's,
  and is gone when these were the last; no other context has changed.
  \<open>schedule_counted\<close>: the call is an enable or a disable that moves a positive count by
  one to a positive count and adds or removes nothing.  In all three the counts of the
  other pools stay.
\<close>

definition schedule_started :: "call \<Rightarrow> world \<Rightarrow> world \<Rightarrow> bool" where
  "schedule_started c w w' \<longleftrightarrow>
     (\<exists>a p' x l t.
        c = NeedScheduleThread a True \<and> schedule_count w a = 0 \<and>
        heap w' a = Some p' \<and> schedule_handles p' = (1, Some x, Some l, Some t) \<and>
        dom (contexts w') = insert x (dom (contexts w)) \<and> x \<notin> dom (contexts w) \<and>
        contexts w' x = Some 2 \<and>
        dom (loops w') = insert l (dom (loops w)) \<and> l \<notin> dom (loops w) \<and>
        dom (threads w') = insert t (dom (threads w)) \<and> t \<notin> dom (threads w) \<and>
        (\<forall>b. b \<noteq> a \<longrightarrow> schedule_count w' b = schedule_count w b))"

definition schedule_stopped :: "call \<Rightarrow> world \<Rightarrow> world \<Rightarrow> bool" where
  "schedule_stopped c w w' \<longleftrightarrow>
     (\<exists>a p x l t.
        c = NeedScheduleThread a False \<and>
        heap w a = Some p \<and> schedule_handles p = (1, Some x, Some l, Some t) \<and>
        schedule_count w' a = 0 \<and>
        dom (threads w') = dom (threads w) - {t} \<and> t \<in> dom (threads w) \<and>
        dom (loops w') = dom (loops w) - {l} \<and> l \<in> dom (loops w) \<and>
        dom (contexts w) - {x} \<subseteq> dom (contexts w') \<and> dom (contexts w') \<subseteq> dom (contexts w) \<and>
        (case contexts w x of
           None \<Rightarrow> False
         | Some n \<Rightarrow> contexts w' x = (if n \<le> 2 then None else Some (n - 2))) \<and>
        (\<forall>y. y \<noteq> x \<longrightarrow> contexts w' y = contexts w y) \<and>
        (\<forall>b. b \<noteq> a \<longrightarrow> schedule_count w' b = schedule_count w b))"

definition schedule_counted :: "call \<Rightarrow> world \<Rightarrow> world \<Rightarrow> bool" where
  "schedule_counted c w w' \<longleftrightarrow>
     (\<exists>a needed.
        c = NeedScheduleThread a needed \<and>
        0 < schedule_count w a \<and> 0 < schedule_count w' a \<and>
        schedule_count w' a = schedule_count w a + (if needed then 1 else - 1) \<and>
        (\<forall>b. b \<noteq> a \<longrightarrow> schedule_count w' b = schedule_count w b) \<and>
        dom (threads w') = dom (threads w) \<and> dom (loops w') = dom (loops w) \<and>
        dom (contexts w') = dom (contexts w))"

text \<open>
  A run that creates a pool, enables its schedule thread twice (asking for the context in
  between) and disables it once.
\<close>

definition stopping_run :: "world result" where
  "stopping_run = run [New, NeedScheduleThread 1 True, GetScheduleContext 1,
     NeedScheduleThread 1 True, NeedScheduleThread 1 False] (process_start [] [])"

text \<open>The thread pool of the default pool, and a run that keeps a process busy.\<close>

definition default_thread_pool :: GThreadPool where
  "default_thread_pool =
     \<lparr>tp_max_threads = - 1, tp_exclusive = False, tp_num_threads = 0,
      tp_queue = [], tp_running = []\<rparr>"

definition busy_calls :: "call list" where
  "busy_calls = [New, Push 1 7 8 NullLoc, NeedScheduleThread 2 True, GetDefault, Cleanup 1,
     NeedScheduleThread 1 True]"

section \<open>Properties\<close>

text \<open>
  C8.  On the default backend \<open>push\<close> returns the null handle whatever the pool, the job,
  the error location and the outcome of the submission are, and \<open>join\<close> changes nothing
  for any handle: neither the pool nor the process, so no error is raised and nothing is
  waited for.
\<close>

theorem default_push_null_handle_join_noop:
  "fst (default_push p f d error w) = None \<and> default_join p h w = (p, w)"
  by (simp add: default_push_def default_join_def Let_def split: option.split prod.split)

subsection \<open>The default pool and the identity test\<close>

lemma get_default_other:
  assumes "gst_task_pool_get_default w = (d, w1)" "a \<noteq> d"
  shows "heap w1 a = heap w a \<and> contexts w1 = contexts w \<and> loops w1 = loops w \<and>
    threads w1 = threads w \<and> os_wake w1 = os_wake w \<and> default_pool w1 = Some d"
  using assms
  by (auto simp: gst_task_pool_get_default_def gst_task_pool_new_def g_object_newv_def
      gst_task_pool_prepare_def default_prepare_def g_thread_pool_new_def gst_object_ref_def
      g_critical_def gst_task_pool_init_def gst_task_pool_class_init_def Let_def
      split: option.splits prod.splits if_splits vfunc.splits)

lemma ref_unref_heap: "heap (gst_object_unref a (gst_object_ref a w)) = heap w"
  by (auto simp: gst_object_unref_def gst_object_ref_def g_critical_def
      gst_task_pool_finalize_def split: option.splits)

lemma ref_unref_rest:
  "contexts (gst_object_unref a (gst_object_ref a w)) = contexts w \<and>
   loops (gst_object_unref a (gst_object_ref a w)) = loops w \<and>
   threads (gst_object_unref a (gst_object_ref a w)) = threads w \<and>
   default_pool (gst_object_unref a (gst_object_ref a w)) = default_pool w \<and>
   next_addr (gst_object_unref a (gst_object_ref a w)) = next_addr w"
  by (auto simp: gst_object_unref_def gst_object_ref_def g_critical_def
      gst_task_pool_finalize_def split: option.splits)

text \<open>
  C6.  When \<open>a\<close> is the process-wide default pool (the static variable of
  \<open>gst_task_pool_get_default\<close> holds it), \<open>gst_task_pool_need_schedule_thread\<close> returns
  \<open>FALSE\<close> for an enable as for a disable, and leaves every object, and with it the
  default pool's schedule state, as well as all contexts, loops and threads as they were.
\<close>

theorem default_pool_rejects_schedule_thread:
  assumes "default_pool w = Some a"
  shows "\<exists>w'. gst_task_pool_need_schedule_thread a needed w = Inr (False, w') \<and>
     heap w' = heap w \<and> contexts w' = contexts w \<and> loops w' = loops w \<and>
     threads w' = threads w \<and> default_pool w' = default_pool w"
proof (cases "heap w a")
  case None
  then show ?thesis
    by (simp add: gst_task_pool_need_schedule_thread_def g_critical_def)
next
  case (Some p)
  show ?thesis
  proof (cases "needed \<or> 0 < need_schedule_thread (priv p)")
    case False
    with Some show ?thesis
      by (simp add: gst_task_pool_need_schedule_thread_def g_critical_def)
  next
    case True
    have gd: "gst_task_pool_get_default w = (a, gst_object_ref a w)"
      using assms by (simp add: gst_task_pool_get_default_def)
    have "gst_task_pool_need_schedule_thread a needed w =
        Inr (False, gst_object_unref a (gst_object_ref a w))"
      using Some True gd by (simp add: gst_task_pool_need_schedule_thread_def)
    then show ?thesis
      using ref_unref_heap[of a w] ref_unref_rest[of a w] by simp
  qed
qed

theorem default_pool_rejects_schedule_thread_witness:
  "default_pool default_pool_world = Some 1 \<and> heap default_pool_world 1 \<noteq> None \<and>
   (\<exists>w'. gst_task_pool_need_schedule_thread 1 True default_pool_world = Inr (False, w') \<and>
     heap w' = heap default_pool_world \<and> contexts w' = contexts default_pool_world \<and>
     loops w' = loops default_pool_world \<and> threads w' = threads default_pool_world \<and>
     default_pool w' = default_pool default_pool_world)"
proof -
  have h: "default_pool default_pool_world = Some 1" by code_simp
  have l: "heap default_pool_world 1 \<noteq> None" by code_simp
  from h l default_pool_rejects_schedule_thread[OF h, of True] show ?thesis by simp
qed

subsection \<open>Enable and disable on a pool that is not the default pool\<close>

lemma need_other:
  assumes "heap w a = Some p" "needed \<or> 0 < need_schedule_thread (priv p)"
    "gst_task_pool_get_default w = (d, w1)" "a \<noteq> d"
  shows "gst_task_pool_need_schedule_thread a needed w =
     (if needed then
        (let (pv, w2) =
               (if need_schedule_thread (priv p) = 0
                then schedule_thread_start (priv p) w1
                else (priv p, w1))
         in if need_schedule_thread pv = 2147483647 then Inl (SignedOverflow, w2)
            else Inr (True,
              update_pool a (\<lambda>q. q\<lparr>priv :=
                pv\<lparr>need_schedule_thread := need_schedule_thread pv + 1\<rparr>\<rparr>) w2))
      else if need_schedule_thread (priv p) = - 2147483648
        then Inl (SignedOverflow, w1)
      else
        (let pv = (priv p)\<lparr>need_schedule_thread :=
                     need_schedule_thread (priv p) - 1\<rparr>
         in if need_schedule_thread pv = 0 then
              (case schedule_thread_stop pv w1 of
                 Inl (f, w2) \<Rightarrow> Inl (f, update_pool a (\<lambda>q. q\<lparr>priv := pv\<rparr>) w2)
               | Inr (pv', w2) \<Rightarrow>
                   Inr (False, update_pool a (\<lambda>q. q\<lparr>priv := pv'\<rparr>) w2))
            else Inr (False, update_pool a (\<lambda>q. q\<lparr>priv := pv\<rparr>) w1)))"
  using assms get_default_other[OF assms(3,4)]
  by (simp add: gst_task_pool_need_schedule_thread_def)

lemma start_signalled:
  assumes "os_wake w = [] \<or> hd (os_wake w) = Signalled"
  shows "\<exists>w' c l t. schedule_thread_start pv w =
      (pv\<lparr>schedule_context := Some c, schedule_loop := Some l, schedule_thread := Some t\<rparr>, w')
    \<and> heap w' = heap w \<and> default_pool w' = default_pool w
    \<and> threads w' t = Some (Looping l) \<and> loops w' l = Some (c, True) \<and> contexts w' c \<noteq> None"
  using assms
  by (auto simp: schedule_thread_start_def g_main_context_new_def g_main_loop_new_def
      g_main_context_ref_def g_thread_new_def g_cond_wait_def gst_task_pool_schedule_func_def
      main_loop_running_cb_def Let_def split: list.splits wake.splits)

lemma nondefault_keep:
  assumes "gst_task_pool_get_default w = (d, w1)" "a \<noteq> d" "default_pool w2 = default_pool w1"
  shows "fst (gst_task_pool_get_default (update_pool a f w2)) \<noteq> a"
  using assms get_default_other[OF assms(1,2)]
  by (auto simp: update_pool_def gst_task_pool_get_default_def split: option.splits)

lemma enable_idle:
  assumes "heap w a = Some p" "need_schedule_thread (priv p) = 0"
    "fst (gst_task_pool_get_default w) \<noteq> a" "os_wake w = [] \<or> hd (os_wake w) = Signalled"
  shows "\<exists>w' c l t. gst_task_pool_need_schedule_thread a True w = Inr (True, w') \<and>
     schedule_active w' a 1 c l t \<and> fst (gst_task_pool_get_default w') \<noteq> a"
proof -
  obtain d w1 where gd: "gst_task_pool_get_default w = (d, w1)"
    by (cases "gst_task_pool_get_default w")
  with assms(3) have ne: "a \<noteq> d" by auto
  note fr = get_default_other[OF gd ne]
  from fr assms(4) have "os_wake w1 = [] \<or> hd (os_wake w1) = Signalled" by simp
  from start_signalled[OF this, of "priv p"] obtain w2 c l t where
    st: "schedule_thread_start (priv p) w1 =
      ((priv p)\<lparr>schedule_context := Some c, schedule_loop := Some l, schedule_thread := Some t\<rparr>, w2)"
    and w2: "heap w2 = heap w1" "default_pool w2 = default_pool w1"
      "threads w2 t = Some (Looping l)" "loops w2 l = Some (c, True)" "contexts w2 c \<noteq> None"
    by blast
  let ?w' = "update_pool a (\<lambda>q. q\<lparr>priv := (priv p)\<lparr>schedule_context := Some c,
     schedule_loop := Some l, schedule_thread := Some t, need_schedule_thread := 1\<rparr>\<rparr>) w2"
  have "gst_task_pool_need_schedule_thread a True w = Inr (True, ?w')"
    using need_other[OF assms(1) _ gd ne, of True] assms(2) st by simp
  moreover have "schedule_active ?w' a 1 c l t"
    using w2 fr assms(1) by (auto simp: schedule_active_def update_pool_def)
  moreover have "fst (gst_task_pool_get_default ?w') \<noteq> a"
    by (rule nondefault_keep[OF gd ne]) (simp add: w2)
  ultimately show ?thesis by blast
qed

lemma enable_active:
  assumes "schedule_active w a n c l t" "0 < n" "n < 2147483647"
    "fst (gst_task_pool_get_default w) \<noteq> a"
  shows "\<exists>w'. gst_task_pool_need_schedule_thread a True w = Inr (True, w') \<and>
     schedule_active w' a (n + 1) c l t \<and> fst (gst_task_pool_get_default w') \<noteq> a"
proof -
  obtain p where p: "heap w a = Some p"
    using assms(1) by (auto simp: schedule_active_def split: option.splits)
  obtain d w1 where gd: "gst_task_pool_get_default w = (d, w1)"
    by (cases "gst_task_pool_get_default w")
  with assms(4) have ne: "a \<noteq> d" by auto
  note fr = get_default_other[OF gd ne]
  let ?w' = "update_pool a (\<lambda>q. q\<lparr>priv := (priv p)\<lparr>need_schedule_thread := n + 1\<rparr>\<rparr>) w1"
  have "gst_task_pool_need_schedule_thread a True w = Inr (True, ?w')"
    using need_other[OF p _ gd ne, of True] assms(1,2,3) p by (simp add: schedule_active_def)
  moreover have "schedule_active ?w' a (n + 1) c l t"
    using assms(1) p fr by (auto simp: schedule_active_def update_pool_def)
  moreover have "fst (gst_task_pool_get_default ?w') \<noteq> a"
    by (rule nondefault_keep[OF gd ne]) simp
  ultimately show ?thesis by blast
qed

lemma disable_active:
  assumes "schedule_active w a n c l t" "1 < n" "fst (gst_task_pool_get_default w) \<noteq> a"
  shows "\<exists>w'. gst_task_pool_need_schedule_thread a False w = Inr (False, w') \<and>
     schedule_active w' a (n - 1) c l t \<and> fst (gst_task_pool_get_default w') \<noteq> a"
proof -
  obtain p where p: "heap w a = Some p"
    using assms(1) by (auto simp: schedule_active_def split: option.splits)
  obtain d w1 where gd: "gst_task_pool_get_default w = (d, w1)"
    by (cases "gst_task_pool_get_default w")
  with assms(3) have ne: "a \<noteq> d" by auto
  note fr = get_default_other[OF gd ne]
  let ?w' = "update_pool a (\<lambda>q. q\<lparr>priv := (priv p)\<lparr>need_schedule_thread := n - 1\<rparr>\<rparr>) w1"
  have n: "need_schedule_thread (priv p) = n"
    using assms(1) p by (simp add: schedule_active_def)
  have "gst_task_pool_need_schedule_thread a False w = Inr (False, ?w')"
    using need_other[OF p _ gd ne, of False] assms(2) n by simp
  moreover have "schedule_active ?w' a (n - 1) c l t"
    using assms(1) p fr by (auto simp: schedule_active_def update_pool_def)
  moreover have "fst (gst_task_pool_get_default ?w') \<noteq> a"
    by (rule nondefault_keep[OF gd ne]) simp
  ultimately show ?thesis by blast
qed

lemma stop_looping:
  assumes "schedule_thread pv = Some t" "schedule_loop pv = Some l"
    "threads w t = Some (Looping l)" "loops w l \<noteq> None"
  shows "\<exists>w'. schedule_thread_stop pv w =
      Inr (pv\<lparr>schedule_loop := None, schedule_context := None, schedule_thread := None\<rparr>, w')
    \<and> heap w' = heap w \<and> default_pool w' = default_pool w
    \<and> threads w' = (threads w)(t := None) \<and> loops w' = (loops w)(l := None)"
  using assms
  by (auto simp: schedule_thread_stop_def g_main_loop_quit_def g_thread_join_def
      g_main_loop_unref_def g_main_context_unref_def g_critical_def
      split: option.splits)

lemma disable_last:
  assumes "schedule_active w a 1 c l t" "fst (gst_task_pool_get_default w) \<noteq> a"
  shows "\<exists>w'. gst_task_pool_need_schedule_thread a False w = Inr (False, w') \<and>
     schedule_idle w' a \<and> threads w' t = None \<and> loops w' l = None \<and>
     fst (gst_task_pool_get_default w') \<noteq> a"
proof -
  obtain p where p: "heap w a = Some p"
    using assms(1) by (auto simp: schedule_active_def split: option.splits)
  obtain d w1 where gd: "gst_task_pool_get_default w = (d, w1)"
    by (cases "gst_task_pool_get_default w")
  with assms(2) have ne: "a \<noteq> d" by auto
  note fr = get_default_other[OF gd ne]
  let ?pv = "(priv p)\<lparr>need_schedule_thread := 0\<rparr>"
  have act: "need_schedule_thread (priv p) = 1" "schedule_thread ?pv = Some t"
    "schedule_loop ?pv = Some l" "threads w1 t = Some (Looping l)" "loops w1 l \<noteq> None"
    using assms(1) p fr by (auto simp: schedule_active_def)
  from stop_looping[OF act(2-5)] obtain w2 where
    st: "schedule_thread_stop ?pv w1 =
      Inr (?pv\<lparr>schedule_loop := None, schedule_context := None, schedule_thread := None\<rparr>, w2)"
    and w2: "heap w2 = heap w1" "default_pool w2 = default_pool w1"
      "threads w2 = (threads w1)(t := None)" "loops w2 = (loops w1)(l := None)"
    by blast
  let ?w' = "update_pool a (\<lambda>q. q\<lparr>priv := ?pv\<lparr>schedule_loop := None, schedule_context := None,
     schedule_thread := None\<rparr>\<rparr>) w2"
  have "gst_task_pool_need_schedule_thread a False w = Inr (False, ?w')"
    using need_other[OF p _ gd ne, of False] act(1) st by simp
  moreover have "schedule_idle ?w' a"
    using p fr w2 by (auto simp: schedule_idle_def update_pool_def)
  moreover have "threads ?w' t = None" "loops ?w' l = None"
    using w2 by (auto simp: update_pool_def split: option.splits)
  moreover have "fst (gst_task_pool_get_default ?w') \<noteq> a"
    by (rule nondefault_keep[OF gd ne]) (simp add: w2)
  ultimately show ?thesis by blast
qed

lemma disable_idle:
  assumes "schedule_idle w a"
  shows "gst_task_pool_need_schedule_thread a False w = Inr (False, g_critical w)"
  using assms
  by (auto simp: schedule_idle_def gst_task_pool_need_schedule_thread_def split: option.splits)

text \<open>
  The sequence of C4 when the wait is ended by the signal.  Take a pool at \<open>a\<close> that is
  not the default pool (the identity test of the source,
  \<open>pool == gst_task_pool_get_default ()\<close>, fails) and whose count is 0, in a process where
  the wait of the first enable is ended by the signal of the new thread.  Two enables
  return \<open>TRUE\<close> and leave the pool active with count 2: context, loop and thread handles
  set, the context alive, the thread in its loop.  One disable leaves it active with
  count 1 and the same handles.  The second disable joins the thread, frees the loop and
  leaves the pool idle.  A third disable fails the precondition check: it logs a critical
  warning, returns \<open>FALSE\<close> and changes nothing else, so the count stays 0.
\<close>

theorem enable_twice_disable_thrice:
  assumes "heap w a = Some p" and "need_schedule_thread (priv p) = 0"
    and "fst (gst_task_pool_get_default w) \<noteq> a"
    and "os_wake w = [] \<or> hd (os_wake w) = Signalled"
  shows "\<exists>w1 w2 w3 w4 c l t.
      gst_task_pool_need_schedule_thread a True w = Inr (True, w1) \<and>
      gst_task_pool_need_schedule_thread a True w1 = Inr (True, w2) \<and>
      schedule_active w2 a 2 c l t \<and>
      gst_task_pool_need_schedule_thread a False w2 = Inr (False, w3) \<and>
      schedule_active w3 a 1 c l t \<and>
      gst_task_pool_need_schedule_thread a False w3 = Inr (False, w4) \<and>
      schedule_idle w4 a \<and> threads w4 t = None \<and> loops w4 l = None \<and>
      gst_task_pool_need_schedule_thread a False w4 = Inr (False, g_critical w4)"
proof -
  from enable_idle[OF assms] obtain w1 c l t where
    s1: "gst_task_pool_need_schedule_thread a True w = Inr (True, w1)"
    "schedule_active w1 a 1 c l t" "fst (gst_task_pool_get_default w1) \<noteq> a"
    by blast
  from enable_active[OF s1(2) _ _ s1(3)] obtain w2 where
    s2: "gst_task_pool_need_schedule_thread a True w1 = Inr (True, w2)"
    "schedule_active w2 a 2 c l t" "fst (gst_task_pool_get_default w2) \<noteq> a"
    by auto
  from disable_active[OF s2(2) _ s2(3)] obtain w3 where
    s3: "gst_task_pool_need_schedule_thread a False w2 = Inr (False, w3)"
    "schedule_active w3 a 1 c l t" "fst (gst_task_pool_get_default w3) \<noteq> a"
    by auto
  from disable_last[OF s3(2,3)] obtain w4 where
    s4: "gst_task_pool_need_schedule_thread a False w3 = Inr (False, w4)"
    "schedule_idle w4 a" "threads w4 t = None" "loops w4 l = None"
    by blast
  from disable_idle[OF s4(2)] s1 s2 s3 s4 show ?thesis by blast
qed

theorem enable_twice_disable_thrice_witness:
  "\<exists>w1 w2 w3 w4 c l t.
      gst_task_pool_need_schedule_thread 1 True fresh_pool_world = Inr (True, w1) \<and>
      gst_task_pool_need_schedule_thread 1 True w1 = Inr (True, w2) \<and>
      schedule_active w2 1 2 c l t \<and>
      gst_task_pool_need_schedule_thread 1 False w2 = Inr (False, w3) \<and>
      schedule_active w3 1 1 c l t \<and>
      gst_task_pool_need_schedule_thread 1 False w3 = Inr (False, w4) \<and>
      schedule_idle w4 1 \<and> threads w4 t = None \<and> loops w4 l = None \<and>
      gst_task_pool_need_schedule_thread 1 False w4 = Inr (False, g_critical w4)"
proof -
  have h1: "heap fresh_pool_world 1 = Some gst_task_pool_init" by code_simp
  have h2: "need_schedule_thread (priv gst_task_pool_init) = 0" by code_simp
  have h3: "fst (gst_task_pool_get_default fresh_pool_world) \<noteq> 1" by code_simp
  have h4: "os_wake fresh_pool_world = [] \<or> hd (os_wake fresh_pool_world) = Signalled"
    by code_simp
  show ?thesis using enable_twice_disable_thrice[OF h1 h2 h3 h4] .
qed



subsection \<open>Pushing without a backend\<close>

text \<open>
  C2.  Let the pool at \<open>a\<close> have no backend (\<open>pool->pool\<close> is \<open>NULL\<close>).  Then
  \<open>gst_task_pool_push\<close> returns the null handle and the error location as it came, no
  call of a job is made, and the job is stored nowhere (the objects and the detached
  thread pools are unchanged), so it will never be invoked.  This is the state of a new
  pool before \<open>prepare\<close>, of a pool after \<open>cleanup\<close>, and of a pool after a \<open>prepare\<close> in
  which \<open>g_thread_pool_new\<close> returned \<open>NULL\<close>.  When there is a backend that has no thread
  yet and may have one, and the operating system refuses to create it, the error location
  is set.
\<close>

theorem push_without_backend:
  assumes "heap w a = Some p"
  shows "(pool p = None \<longrightarrow>
            (\<exists>w'. gst_task_pool_push a f d error w = (None, error, w') \<and>
               invoked w' = invoked w \<and> heap w' = heap w \<and> detached w' = detached w))
       \<and> (pool p = Some tp \<and> tp_num_threads tp = 0 \<and> tp_max_threads tp = - 1 \<and>
          klass_push (klass p) = Some Inherited \<and> os_spawn w = Some e # rest \<longrightarrow>
            (\<exists>w'. gst_task_pool_push a f d (Loc None) w = (None, Loc (Some e), w')))
       \<and> (klass_cleanup (klass p) = Some Inherited \<and> gst_task_pool_cleanup a w = Inr w1 \<longrightarrow>
            (\<exists>p'. heap w1 a = Some p' \<and> pool p' = None))
       \<and> (klass_prepare (klass p) = Some Inherited \<and>
          fst (g_thread_pool_new (max_threads (priv p)) (exclusive (priv p)) NullLoc w) = None \<longrightarrow>
            (\<exists>p'. heap (snd (gst_task_pool_prepare a error w)) a = Some p' \<and> pool p' = None))
       \<and> (\<exists>p'. heap (snd (gst_task_pool_new w)) (fst (gst_task_pool_new w)) = Some p' \<and>
            pool p' = None)"
proof (intro conjI impI)
  assume "pool p = None"
  with assms show "\<exists>w'. gst_task_pool_push a f d error w = (None, error, w') \<and>
               invoked w' = invoked w \<and> heap w' = heap w \<and> detached w' = detached w"
    by (auto simp: gst_task_pool_push_def default_push_def g_warning_def
        split: option.splits vfunc.splits)
next
  assume "pool p = Some tp \<and> tp_num_threads tp = 0 \<and> tp_max_threads tp = - 1 \<and>
          klass_push (klass p) = Some Inherited \<and> os_spawn w = Some e # rest"
  with assms show "\<exists>w'. gst_task_pool_push a f d (Loc None) w = (None, Loc (Some e), w')"
    by (auto simp: gst_task_pool_push_def default_push_def g_thread_pool_push_def
        g_thread_pool_start_thread_def g_thread_try_new_def g_propagate_error_def Let_def
        split: option.splits vfunc.splits)
next
  assume "klass_cleanup (klass p) = Some Inherited \<and> gst_task_pool_cleanup a w = Inr w1"
  with assms show "\<exists>p'. heap w1 a = Some p' \<and> pool p' = None"
    by (auto simp: gst_task_pool_cleanup_def default_cleanup_def
        split: option.splits sum.splits)
next
  assume "klass_prepare (klass p) = Some Inherited \<and>
          fst (g_thread_pool_new (max_threads (priv p)) (exclusive (priv p)) NullLoc w) = None"
  with assms show "\<exists>p'. heap (snd (gst_task_pool_prepare a error w)) a = Some p' \<and> pool p' = None"
    by (auto simp: gst_task_pool_prepare_def default_prepare_def Let_def
        split: option.splits prod.splits)
next
  show "\<exists>p'. heap (snd (gst_task_pool_new w)) (fst (gst_task_pool_new w)) = Some p' \<and>
            pool p' = None"
    by (simp add: gst_task_pool_new_def g_object_newv_def gst_task_pool_init_def)
qed


theorem push_without_backend_witness:
  "(\<exists>w'. gst_task_pool_push 1 7 8 (Loc None) fresh_pool_world = (None, Loc None, w') \<and>
       invoked w' = invoked fresh_pool_world \<and> heap w' = heap fresh_pool_world \<and>
       detached w' = detached fresh_pool_world)
   \<and> (\<exists>w'. gst_task_pool_push 1 7 8 (Loc None) prepared_pool_world = (None, Loc (Some 7), w'))
   \<and> (\<exists>w1 p'. gst_task_pool_cleanup 1 prepared_pool_world = Inr w1 \<and>
         heap w1 1 = Some p' \<and> pool p' = None)
   \<and> (\<exists>p'. heap (snd (gst_task_pool_prepare 1 (Loc None) failing_pool_world)) 1 = Some p' \<and>
         pool p' = None)"
proof -
  have a: "heap fresh_pool_world 1 = Some gst_task_pool_init" by code_simp
  have a': "pool gst_task_pool_init = None" by code_simp
  have b: "heap prepared_pool_world 1 = Some prepared_pool" by code_simp
  have b': "pool prepared_pool = Some default_thread_pool \<and>
      tp_num_threads default_thread_pool = 0 \<and> tp_max_threads default_thread_pool = - 1 \<and>
      klass_push (klass prepared_pool) = Some Inherited \<and>
      os_spawn prepared_pool_world = Some 7 # []"
    by code_simp
  have b'': "klass_cleanup (klass prepared_pool) = Some Inherited" by code_simp
  have "\<not> isl (gst_task_pool_cleanup 1 prepared_pool_world)" by code_simp
  then obtain w1 where b3: "gst_task_pool_cleanup 1 prepared_pool_world = Inr w1"
    by (cases "gst_task_pool_cleanup 1 prepared_pool_world") simp_all
  have c: "heap failing_pool_world 1 = Some failing_pool" by code_simp
  have c': "klass_prepare (klass failing_pool) = Some Inherited \<and>
      fst (g_thread_pool_new (max_threads (priv failing_pool)) (exclusive (priv failing_pool))
        NullLoc failing_pool_world) = None"
    by code_simp
  from push_without_backend[OF a, where f=7 and d=8 and error="Loc None"] a'
  have 1: "\<exists>w'. gst_task_pool_push 1 7 8 (Loc None) fresh_pool_world = (None, Loc None, w') \<and>
       invoked w' = invoked fresh_pool_world \<and> heap w' = heap fresh_pool_world \<and>
       detached w' = detached fresh_pool_world"
    by blast
  from push_without_backend[OF b, where f=7 and d=8 and e=7 and rest="[]"
      and tp=default_thread_pool and ?w1.0=w1] b' b'' b3
  have 2: "\<exists>w'. gst_task_pool_push 1 7 8 (Loc None) prepared_pool_world = (None, Loc (Some 7), w')"
    and 3: "\<exists>w1 p'. gst_task_pool_cleanup 1 prepared_pool_world = Inr w1 \<and>
         heap w1 1 = Some p' \<and> pool p' = None"
    by blast+
  from push_without_backend[OF c, where error="Loc None"] c'
  have 4: "\<exists>p'. heap (snd (gst_task_pool_prepare 1 (Loc None) failing_pool_world)) 1 = Some p' \<and>
         pool p' = None"
    by blast
  from 1 2 3 4 show ?thesis by blast
qed

subsection \<open>Defects\<close>

text \<open>
  C7.  \<open>default_prepare\<close> passes \<open>NULL\<close> to \<open>g_thread_pool_new\<close> instead of its \<open>error\<close>
  argument.  On a pool whose configuration is refused (\<open>max_threads = -2\<close>) the pool
  stays without a backend and the error location of the caller is still \<open>NULL\<close> after
  \<open>gst_task_pool_prepare\<close>; on an exclusive pool whose threads cannot be created the
  error GLib would report (7) is consumed and the location is still \<open>NULL\<close>.
\<close>

theorem prepare_never_reports_failure:
  "fst (gst_task_pool_prepare 1 (Loc None) failing_pool_world) = Loc None \<and>
   map_option pool (heap (snd (gst_task_pool_prepare 1 (Loc None) failing_pool_world)) 1)
     = Some None \<and>
   os_spawn exclusive_pool_world = [Some 7] \<and>
   fst (gst_task_pool_prepare 1 (Loc None) exclusive_pool_world) = Loc None \<and>
   os_spawn (snd (gst_task_pool_prepare 1 (Loc None) exclusive_pool_world)) = []"
  by code_simp

text \<open>
  C5.  The enabling caller waits with a single \<open>g_cond_wait\<close>, not in a loop.  When that
  wait ends spuriously, the enable returns \<open>TRUE\<close> and \<open>gst_task_pool_get_schedule_context\<close>
  hands out the context (3) while the loop (4) is not running and the thread (5) has not
  entered it; a disable that follows at once never returns from \<open>g_thread_join\<close>.
\<close>

theorem enable_returns_on_spurious_wake:
  "case gst_task_pool_need_schedule_thread 1 True spurious_world of
     Inl _ \<Rightarrow> False
   | Inr (r, w') \<Rightarrow>
       r \<and> fst (gst_task_pool_get_schedule_context 1 w') = Some 3 \<and>
       loops w' 4 = Some (3, False) \<and> threads w' 5 = Some Started \<and>
       (case gst_task_pool_need_schedule_thread 1 False w' of
          Inl f \<Rightarrow> fst f = JoinBlocks
        | Inr _ \<Rightarrow> False)"
  by code_simp

text \<open>
  C4.  The same single \<open>g_cond_wait\<close> breaks the sequence of two enables and three
  disables.  When the wait of the first enable ends spuriously, both enables return
  \<open>TRUE\<close>, the count is 2 and the context (3) is handed out; the first disable leaves
  the count at 1; the second disable, which has to tear the thread down, tells a loop to
  quit that is not running yet and never returns from \<open>g_thread_join\<close>: the thread (5)
  has not ended, the loop (4) and the context (3) are not released, and the pool does not
  come back to the idle state.
\<close>

theorem second_disable_never_returns:
  "case gst_task_pool_need_schedule_thread 1 True spurious_world of
     Inl _ \<Rightarrow> False
   | Inr (r1, w1) \<Rightarrow>
       r1 \<and>
       (case gst_task_pool_need_schedule_thread 1 True w1 of
          Inl _ \<Rightarrow> False
        | Inr (r2, w2) \<Rightarrow>
            r2 \<and> schedule_count w2 1 = 2 \<and>
            fst (gst_task_pool_get_schedule_context 1 w2) = Some 3 \<and>
            (case gst_task_pool_need_schedule_thread 1 False w2 of
               Inl _ \<Rightarrow> False
             | Inr (r3, w3) \<Rightarrow>
                 schedule_count w3 1 = 1 \<and>
                 (case gst_task_pool_need_schedule_thread 1 False w3 of
                    Inl (f, w4) \<Rightarrow>
                      f = JoinBlocks \<and> threads w4 5 = Some Started \<and>
                      loops w4 4 = Some (3, False) \<and> contexts w4 3 = Some 2
                  | Inr _ \<Rightarrow> False)))"
  by code_simp

text \<open>
  C3.  With the same wake-up, the disable that takes the count of pool 1 from 1 to 0
  writes the count, tells the loop to quit and never returns from \<open>g_thread_join\<close>.  The
  process stays in a state where the count is 0 while the three handles of the pool are
  set and the thread (5), the loop (4) and the context (3) are alive: the thread exists
  with a count that is not positive, and this transition from 1 to 0 neither joins the
  thread nor releases the loop and the context.
\<close>

theorem count_zero_with_live_thread:
  "case run [New, NeedScheduleThread 1 True] (process_start [] [Spurious]) of
     Inl _ \<Rightarrow> False
   | Inr w \<Rightarrow>
       schedule_count w 1 = 1 \<and>
       (case step (NeedScheduleThread 1 False) w of
          Inl (f, w') \<Rightarrow>
            f = JoinBlocks \<and> schedule_count w' 1 = 0 \<and>
            map_option schedule_handles (heap w' 1) = Some (0, Some 3, Some 4, Some 5) \<and>
            threads w' 5 = Some Started \<and> loops w' 4 = Some (3, False) \<and>
            contexts w' 3 = Some 2
        | Inr _ \<Rightarrow> False)"
  by code_simp

subsection \<open>What the thread pool changes in the process\<close>

lemma try_new_world: "\<exists>r. snd (snd (g_thread_try_new err w)) = w\<lparr>os_spawn := r\<rparr>"
proof (cases "os_spawn w")
  case Nil
  then have "snd (snd (g_thread_try_new err w)) = w\<lparr>os_spawn := []\<rparr>"
    by (simp add: g_thread_try_new_def)
  then show ?thesis ..
next
  case (Cons e rest)
  then have "snd (snd (g_thread_try_new err w)) = w\<lparr>os_spawn := rest\<rparr>"
    by (cases e) (simp_all add: g_thread_try_new_def)
  then show ?thesis ..
qed

lemma start_threads_world: "\<exists>r. snd (snd (start_threads n err w)) = w\<lparr>os_spawn := r\<rparr>"
proof (induction n arbitrary: err w)
  case 0
  have "snd (snd (start_threads 0 err w)) = w\<lparr>os_spawn := os_spawn w\<rparr>" by simp
  then show ?case ..
next
  case (Suc n)
  obtain ok err' w' where t: "g_thread_try_new err w = (ok, err', w')"
    by (cases "g_thread_try_new err w")
  from try_new_world[of err w] t obtain r where w': "w' = w\<lparr>os_spawn := r\<rparr>" by auto
  show ?case
  proof (cases ok)
    case True
    from Suc[of err' w'] obtain r' where "snd (snd (start_threads n err' w')) = w'\<lparr>os_spawn := r'\<rparr>"
      by blast
    with t True w' have "snd (snd (start_threads (Suc n) err w)) = w\<lparr>os_spawn := r'\<rparr>"
      by (simp add: case_prod_beta)
    then show ?thesis ..
  next
    case False
    with t w' have "snd (snd (start_threads (Suc n) err w)) = w\<lparr>os_spawn := r\<rparr>" by simp
    then show ?thesis ..
  qed
qed

lemma pool_new_world:
  "snd (snd (g_thread_pool_new m x err w)) = g_critical w \<or>
   (\<exists>r. snd (snd (g_thread_pool_new m x err w)) = w\<lparr>os_spawn := r\<rparr>)"
proof (cases "m < - 1 \<or> (x \<and> m = - 1)")
  case True
  then show ?thesis by (simp add: g_thread_pool_new_def)
next
  case False
  show ?thesis
  proof (cases x)
    case True
    obtain r where "snd (snd (start_threads (nat m) err w)) = w\<lparr>os_spawn := r\<rparr>"
      using start_threads_world by blast
    with True False have "snd (snd (g_thread_pool_new m x err w)) = w\<lparr>os_spawn := r\<rparr>"
      by (simp add: g_thread_pool_new_def Let_def case_prod_beta)
    then show ?thesis by blast
  next
    case no: False
    with False have "snd (snd (g_thread_pool_new m x err w)) = w\<lparr>os_spawn := os_spawn w\<rparr>"
      by (simp add: g_thread_pool_new_def Let_def)
    then show ?thesis by blast
  qed
qed

lemma pool_push_world:
  "\<exists>r. snd (snd (g_thread_pool_push tp t err w)) = w\<lparr>os_spawn := r\<rparr>"
proof -
  obtain ok e' r where t: "g_thread_try_new err w = (ok, e', w\<lparr>os_spawn := r\<rparr>)"
    using try_new_world[of err w] by (cases "g_thread_try_new err w") auto
  have "snd (snd (g_thread_pool_push tp t err w)) = w\<lparr>os_spawn := os_spawn w\<rparr> \<or>
        snd (snd (g_thread_pool_push tp t err w)) = w\<lparr>os_spawn := r\<rparr>"
    using t
    by (cases ok)
       (simp_all add: g_thread_pool_push_def g_thread_pool_start_thread_def Let_def)
  then show ?thesis by blast
qed

subsection \<open>Cleanup of the default backend\<close>

lemma fold_default_func_return:
  "fold default_func_return ts w =
     w\<lparr>completed := completed w @ map (\<lambda>t. (func t, user_data t)) ts\<rparr>"
  by (induction ts arbitrary: w) (simp_all add: default_func_return_def)

lemma fold_default_func:
  "fold default_func ts w =
     w\<lparr>invoked := invoked w @ map (\<lambda>t. (func t, user_data t)) ts,
       completed := completed w @ map (\<lambda>t. (func t, user_data t)) ts\<rparr>"
  by (induction ts arbitrary: w)
     (simp_all add: default_func_def default_func_call_def default_func_return_def)

lemma mset_without_nth:
  assumes "i < length xs"
  shows "mset (map g (take i xs @ drop (Suc i) xs)) + {#g (xs ! i)#} = mset (map g xs)"
proof -
  have "xs = take i xs @ xs ! i # drop (Suc i) xs"
    using assms by (rule id_take_nth_drop)
  then have "mset (map g xs) = mset (map g (take i xs @ xs ! i # drop (Suc i) xs))"
    by simp
  then show ?thesis by simp
qed

text \<open>The backend can serve its queue: the queue is empty or the pool has a thread.\<close>

lemma push_step:
  assumes "heap w a = Some p" "klass_push (klass p) = Some Inherited" "pool p = Some tp"
    "tp_max_threads tp = - 1 \<or> 0 < tp_max_threads tp"
    "push_succeeds a f d w"
  shows "\<exists>w1 tp1. snd (snd (gst_task_pool_push a f d error w)) = w1 \<and>
     heap w1 a = Some (p\<lparr>pool := Some tp1\<rparr>) \<and>
     tp_max_threads tp1 = tp_max_threads tp \<and> 0 < tp_num_threads tp1 \<and>
     tp_queue tp1 = tp_queue tp @ [\<lparr>func = f, user_data = d\<rparr>] \<and>
     tp_running tp1 = tp_running tp \<and>
     invoked w1 = invoked w \<and> completed w1 = completed w"
proof (cases "os_spawn w")
  case Nil
  with assms show ?thesis
    by (auto simp: push_succeeds_def gst_task_pool_push_def default_push_def
        g_thread_pool_push_def g_thread_pool_start_thread_def g_thread_try_new_def Let_def)
next
  case (Cons e rest)
  with assms show ?thesis
    by (cases e)
       (auto simp: push_succeeds_def gst_task_pool_push_def default_push_def
          g_thread_pool_push_def g_thread_pool_start_thread_def g_thread_try_new_def
          g_propagate_error_def Let_def split: if_splits)
qed

lemma worker_start_step:
  assumes "heap w a = Some p" "klass_push (klass p) = Some Inherited" "pool p = Some tp"
    "tp_max_threads tp = - 1 \<or> 0 < tp_max_threads tp"
    "tp_queue tp = [] \<or> 0 < tp_num_threads tp"
  shows "\<exists>w1 p1 tp1. worker_start_at a w = w1 \<and> heap w1 a = Some p1 \<and> klass p1 = klass p \<and>
     pool p1 = Some tp1 \<and> tp_max_threads tp1 = tp_max_threads tp \<and>
     (tp_queue tp1 = [] \<or> 0 < tp_num_threads tp1) \<and>
     mset (invoked w1) + mset (queued_jobs tp1) =
       mset (invoked w) + mset (queued_jobs tp) \<and>
     mset (completed w1) + mset (running_jobs tp1) + mset (queued_jobs tp1) =
       mset (completed w) + mset (running_jobs tp) + mset (queued_jobs tp)"
proof (cases "tp_queue tp")
  case Nil
  with assms show ?thesis
    by (simp add: worker_start_at_def worker_start_def)
next
  case (Cons t q)
  show ?thesis
  proof (cases "length (tp_running tp) < tp_num_threads tp")
    case True
    with Cons assms(1,3) have
      "worker_start_at a w = (default_func_call t w)\<lparr>heap := (heap w)(a \<mapsto>
          p\<lparr>pool := Some (tp\<lparr>tp_queue := q, tp_running := tp_running tp @ [t]\<rparr>)\<rparr>)\<rparr>"
      by (simp add: worker_start_at_def worker_start_def default_func_call_def)
    with Cons True assms show ?thesis
      by (simp add: default_func_call_def queued_jobs_def running_jobs_def)
  next
    case False
    with Cons assms show ?thesis
      by (simp add: worker_start_at_def worker_start_def)
  qed
qed

lemma worker_finish_step:
  assumes "heap w a = Some p" "klass_push (klass p) = Some Inherited" "pool p = Some tp"
    "tp_max_threads tp = - 1 \<or> 0 < tp_max_threads tp"
    "tp_queue tp = [] \<or> 0 < tp_num_threads tp"
  shows "\<exists>w1 p1 tp1. worker_finish_at a i w = w1 \<and> heap w1 a = Some p1 \<and> klass p1 = klass p \<and>
     pool p1 = Some tp1 \<and> tp_max_threads tp1 = tp_max_threads tp \<and>
     (tp_queue tp1 = [] \<or> 0 < tp_num_threads tp1) \<and>
     mset (invoked w1) + mset (queued_jobs tp1) =
       mset (invoked w) + mset (queued_jobs tp) \<and>
     mset (completed w1) + mset (running_jobs tp1) + mset (queued_jobs tp1) =
       mset (completed w) + mset (running_jobs tp) + mset (queued_jobs tp)"
proof (cases "i < length (tp_running tp)")
  case True
  let ?g = "\<lambda>t. (func t, user_data t)"
  let ?rest = "take i (tp_running tp) @ drop (Suc i) (tp_running tp)"
  have m: "mset (map ?g ?rest) + {#?g (tp_running tp ! i)#} = mset (map ?g (tp_running tp))"
    using True by (rule mset_without_nth)
  from True assms(1,3) have
    e: "worker_finish_at a i w = (default_func_return (tp_running tp ! i) w)\<lparr>heap := (heap w)(a \<mapsto>
          p\<lparr>pool := Some (tp\<lparr>tp_running := ?rest\<rparr>)\<rparr>)\<rparr>"
    by (simp add: worker_finish_at_def worker_finish_def default_func_return_def)
  have c: "mset (completed (worker_finish_at a i w)) + mset (map ?g ?rest) =
      mset (completed w) + mset (map ?g (tp_running tp))"
    unfolding e using m by (simp add: default_func_return_def ac_simps)
  have "heap (worker_finish_at a i w) a = Some (p\<lparr>pool := Some (tp\<lparr>tp_running := ?rest\<rparr>)\<rparr>)"
    "invoked (worker_finish_at a i w) = invoked w"
    unfolding e by (simp_all add: default_func_return_def)
  with c assms show ?thesis
    by (simp add: queued_jobs_def running_jobs_def)
next
  case False
  with assms show ?thesis
    by (simp add: worker_finish_at_def worker_finish_def)
qed

lemma worker_leave_step:
  assumes "heap w a = Some p" "klass_push (klass p) = Some Inherited" "pool p = Some tp"
    "tp_max_threads tp = - 1 \<or> 0 < tp_max_threads tp"
    "tp_queue tp = [] \<or> 0 < tp_num_threads tp"
  shows "\<exists>w1 p1 tp1. worker_leave_at a w = w1 \<and> heap w1 a = Some p1 \<and> klass p1 = klass p \<and>
     pool p1 = Some tp1 \<and> tp_max_threads tp1 = tp_max_threads tp \<and>
     (tp_queue tp1 = [] \<or> 0 < tp_num_threads tp1) \<and>
     mset (invoked w1) + mset (queued_jobs tp1) =
       mset (invoked w) + mset (queued_jobs tp) \<and>
     mset (completed w1) + mset (running_jobs tp1) + mset (queued_jobs tp1) =
       mset (completed w) + mset (running_jobs tp) + mset (queued_jobs tp)"
  using assms
  by (simp add: worker_leave_at_def worker_leave_def queued_jobs_def running_jobs_def)

lemma traffic_step:
  assumes "heap w a = Some p" "klass_push (klass p) = Some Inherited" "pool p = Some tp"
    "tp_max_threads tp = - 1 \<or> 0 < tp_max_threads tp"
    "tp_queue tp = [] \<or> 0 < tp_num_threads tp"
    "pool_traffic a c" "call_succeeds c w"
  shows "\<exists>w1 p1 tp1. step c w = Inr w1 \<and> heap w1 a = Some p1 \<and> klass p1 = klass p \<and>
     pool p1 = Some tp1 \<and> tp_max_threads tp1 = tp_max_threads tp \<and>
     (tp_queue tp1 = [] \<or> 0 < tp_num_threads tp1) \<and>
     mset (invoked w1) + mset (queued_jobs tp1) =
       mset (invoked w) + mset (queued_jobs tp) + mset (pushed_job c) \<and>
     mset (completed w1) + mset (running_jobs tp1) + mset (queued_jobs tp1) =
       mset (completed w) + mset (running_jobs tp) + mset (queued_jobs tp) +
       mset (pushed_job c)"
proof (cases c)
  case (Push b f d error)
  with assms(6,7) have b: "b = a" and ok: "push_succeeds a f d w" by simp_all
  from push_step[OF assms(1,2,3,4) ok, of error] obtain tp1 where
    t: "heap (snd (snd (gst_task_pool_push a f d error w))) a = Some (p\<lparr>pool := Some tp1\<rparr>)"
    "tp_max_threads tp1 = tp_max_threads tp" "0 < tp_num_threads tp1"
    "tp_queue tp1 = tp_queue tp @ [\<lparr>func = f, user_data = d\<rparr>]"
    "tp_running tp1 = tp_running tp"
    "invoked (snd (snd (gst_task_pool_push a f d error w))) = invoked w"
    "completed (snd (snd (gst_task_pool_push a f d error w))) = completed w"
    by blast
  have "step c w = Inr (snd (snd (gst_task_pool_push a f d error w)))"
    using Push b by simp
  moreover have "pushed_job c = [(f, d)]" using Push by simp
  ultimately show ?thesis using t by (simp add: queued_jobs_def running_jobs_def)
next
  case (WorkerStart b)
  with assms(6) have "step c w = Inr (worker_start_at a w)" "pushed_job c = []" by simp_all
  with worker_start_step[OF assms(1,2,3,4,5)] show ?thesis by simp
next
  case (WorkerFinish b i)
  with assms(6) have "step c w = Inr (worker_finish_at a i w)" "pushed_job c = []" by simp_all
  with worker_finish_step[OF assms(1,2,3,4,5), of i] show ?thesis by simp
next
  case (WorkerLeave b)
  with assms(6) have "step c w = Inr (worker_leave_at a w)" "pushed_job c = []" by simp_all
  with worker_leave_step[OF assms(1,2,3,4,5)] show ?thesis by simp
qed (use assms(6) in simp_all)

lemma traffic_run:
  assumes "list_all (pool_traffic a) cs" "pushes_succeed cs w" "heap w a = Some p"
    "klass_push (klass p) = Some Inherited" "pool p = Some tp"
    "tp_max_threads tp = - 1 \<or> 0 < tp_max_threads tp"
    "tp_queue tp = [] \<or> 0 < tp_num_threads tp"
  shows "\<exists>w1 p1 tp1. run cs w = Inr w1 \<and> heap w1 a = Some p1 \<and> klass p1 = klass p \<and>
     pool p1 = Some tp1 \<and> tp_max_threads tp1 = tp_max_threads tp \<and>
     (tp_queue tp1 = [] \<or> 0 < tp_num_threads tp1) \<and>
     mset (invoked w1) + mset (queued_jobs tp1) =
       mset (invoked w) + mset (queued_jobs tp) + mset (concat (map pushed_job cs)) \<and>
     mset (completed w1) + mset (running_jobs tp1) + mset (queued_jobs tp1) =
       mset (completed w) + mset (running_jobs tp) + mset (queued_jobs tp) +
       mset (concat (map pushed_job cs))"
  using assms
proof (induction cs arbitrary: w p tp)
  case Nil
  then show ?case by simp
next
  case (Cons c cs)
  from Cons.prems have c: "pool_traffic a c" and cs: "list_all (pool_traffic a) cs"
    and ok: "call_succeeds c w" by simp_all
  from traffic_step[OF Cons.prems(3,4,5,6,7) c ok] obtain w1 p1 tp1 where
    s: "step c w = Inr w1" "heap w1 a = Some p1" "klass p1 = klass p" "pool p1 = Some tp1"
       "tp_max_threads tp1 = tp_max_threads tp" "tp_queue tp1 = [] \<or> 0 < tp_num_threads tp1"
       "mset (invoked w1) + mset (queued_jobs tp1) =
          mset (invoked w) + mset (queued_jobs tp) + mset (pushed_job c)"
       "mset (completed w1) + mset (running_jobs tp1) + mset (queued_jobs tp1) =
          mset (completed w) + mset (running_jobs tp) + mset (queued_jobs tp) +
          mset (pushed_job c)"
    by blast
  have oks: "pushes_succeed cs w1" using Cons.prems(2) s(1) by simp
  have k: "klass_push (klass p1) = Some Inherited" using s(3) Cons.prems(4) by simp
  have m: "tp_max_threads tp1 = - 1 \<or> 0 < tp_max_threads tp1" using s(5) Cons.prems(6) by simp
  from Cons.IH[OF cs oks s(2) k s(4) m s(6)] obtain w2 p2 tp2 where
    r: "run cs w1 = Inr w2" "heap w2 a = Some p2" "klass p2 = klass p1" "pool p2 = Some tp2"
       "tp_max_threads tp2 = tp_max_threads tp1" "tp_queue tp2 = [] \<or> 0 < tp_num_threads tp2"
       "mset (invoked w2) + mset (queued_jobs tp2) =
          mset (invoked w1) + mset (queued_jobs tp1) + mset (concat (map pushed_job cs))"
       "mset (completed w2) + mset (running_jobs tp2) + mset (queued_jobs tp2) =
          mset (completed w1) + mset (running_jobs tp1) + mset (queued_jobs tp1) +
          mset (concat (map pushed_job cs))"
    by blast
  have 1: "run (c # cs) w = Inr w2" using s(1) r(1) by simp
  have 2: "mset (invoked w2) + mset (queued_jobs tp2) =
      mset (invoked w) + mset (queued_jobs tp) + mset (concat (map pushed_job (c # cs)))"
    using s(7) r(7) by (simp add: ac_simps)
  have 3: "mset (completed w2) + mset (running_jobs tp2) + mset (queued_jobs tp2) =
      mset (completed w) + mset (running_jobs tp) + mset (queued_jobs tp) +
      mset (concat (map pushed_job (c # cs)))"
    using s(8) r(8) by (simp add: ac_simps)
  have 4: "klass p2 = klass p" "tp_max_threads tp2 = tp_max_threads tp"
    using r(3,5) s(3,5) by simp_all
  from 1 r(2) 4(1) r(4) 4(2) r(6) 2 3 show ?case by blast
qed

lemma heap_same: "heap w a = Some p \<Longrightarrow> w\<lparr>heap := (heap w)(a \<mapsto> p)\<rparr> = w"
  by (simp add: fun_upd_idem)

lemma idle_step:
  assumes "heap w a = Some p" "pool p = None" "pool_traffic a c" "call_succeeds c w"
  shows "step c w = Inr w \<and> pushed_job c = []"
  using assms
  by (cases c)
     (simp_all add: push_succeeds_def worker_start_at_def worker_start_def
        worker_finish_at_def worker_finish_def worker_leave_at_def worker_leave_def heap_same)

lemma idle_run:
  assumes "list_all (pool_traffic a) cs" "pushes_succeed cs w" "heap w a = Some p"
    "pool p = None"
  shows "run cs w = Inr w \<and> concat (map pushed_job cs) = []"
  using assms(1,2)
proof (induction cs)
  case Nil
  then show ?case by simp
next
  case (Cons c cs)
  from Cons.prems have c: "pool_traffic a c" "call_succeeds c w" by simp_all
  from idle_step[OF assms(3,4) c] have s: "step c w = Inr w" "pushed_job c = []"
    by simp_all
  from Cons.prems s(1) have "list_all (pool_traffic a) cs" "pushes_succeed cs w" by simp_all
  from Cons.IH[OF this] s show ?case by simp
qed

lemma cleanup_idle:
  assumes "heap w a = Some p" "klass_cleanup (klass p) = Some Inherited" "pool p = None"
  shows "gst_task_pool_cleanup a w = Inr w"
  using assms
  by (simp add: gst_task_pool_cleanup_def default_cleanup_def heap_same)

lemma pool_new_refused:
  "x \<and> m = - 1 \<Longrightarrow> g_thread_pool_new m x err w = (None, err, g_critical w)"
  by (simp add: g_thread_pool_new_def)

lemma prepare_refused:
  assumes "heap w a = Some p" "klass_prepare (klass p) = Some Inherited"
    "exclusive (priv p)" "max_threads (priv p) = - 1"
  shows "heap (snd (gst_task_pool_prepare a error w)) a = Some (p\<lparr>pool := None\<rparr>) \<and>
     invoked (snd (gst_task_pool_prepare a error w)) = invoked w \<and>
     completed (snd (gst_task_pool_prepare a error w)) = completed w"
  using assms
  by (cases "pool p")
     (simp_all add: gst_task_pool_prepare_def default_prepare_def pool_new_refused
        g_critical_def)

lemma cleanup_drains:
  assumes "heap w a = Some p" "klass_cleanup (klass p) = Some Inherited" "pool p = Some tp"
    "tp_max_threads tp = - 1 \<or> 0 < tp_max_threads tp"
    "tp_queue tp = [] \<or> 0 < tp_num_threads tp"
  shows "\<exists>w2. gst_task_pool_cleanup a w = Inr w2 \<and>
     invoked w2 = invoked w @ queued_jobs tp \<and>
     completed w2 = completed w @ running_jobs tp @ queued_jobs tp \<and>
     heap w2 a = Some (p\<lparr>pool := None\<rparr>)"
  using assms
  by (auto simp: gst_task_pool_cleanup_def default_cleanup_def g_thread_pool_free_def
      fold_default_func fold_default_func_return queued_jobs_def running_jobs_def Let_def)

lemma pool_new_fresh:
  assumes "0 < m \<or> (m = - 1 \<and> \<not> x)"
  shows "\<exists>k. fst (g_thread_pool_new m x err w) =
     Some \<lparr>tp_max_threads = m, tp_exclusive = x, tp_num_threads = k,
           tp_queue = [], tp_running = []\<rparr>"
  using assms by (auto simp: g_thread_pool_new_def Let_def case_prod_beta)

lemma prepare_fresh:
  assumes "heap w a = Some p" "klass_prepare (klass p) = Some Inherited"
    "0 < max_threads (priv p) \<or> (max_threads (priv p) = - 1 \<and> \<not> exclusive (priv p))"
  shows "\<exists>tp. heap (snd (gst_task_pool_prepare a error w)) a = Some (p\<lparr>pool := Some tp\<rparr>) \<and>
     tp_max_threads tp = max_threads (priv p) \<and> tp_queue tp = [] \<and> tp_running tp = [] \<and>
     invoked (snd (gst_task_pool_prepare a error w)) = invoked w \<and>
     completed (snd (gst_task_pool_prepare a error w)) = completed w"
proof -
  let ?n = "g_thread_pool_new (max_threads (priv p)) (exclusive (priv p)) NullLoc w"
  from pool_new_fresh[OF assms(3), of NullLoc w] obtain k where
    f: "fst ?n = Some \<lparr>tp_max_threads = max_threads (priv p),
          tp_exclusive = exclusive (priv p), tp_num_threads = k,
          tp_queue = [], tp_running = []\<rparr>"
    by blast
  from pool_new_world[of "max_threads (priv p)" "exclusive (priv p)" NullLoc w]
  have r: "invoked (snd (snd ?n)) = invoked w \<and> completed (snd (snd ?n)) = completed w"
    by (auto simp: g_critical_def)
  from assms(1,2) f r show ?thesis
    by (cases "pool p")
       (auto simp: gst_task_pool_prepare_def default_prepare_def Let_def case_prod_beta)
qed

text \<open>
  C1.  Let the pool at \<open>a\<close> use the default backend, with a thread limit that is \<open>-1\<close>
  (none) or positive.  After \<open>gst_task_pool_prepare\<close>, let \<open>cs\<close> be any traffic on the
  pool in which every push succeeds: \<open>N\<close> pushes, with the steps of the worker threads
  (taking a job, finishing it, leaving the pool) interleaved in any way.  Then the traffic
  runs to an end and \<open>gst_task_pool_cleanup\<close> returns, and when it has returned the calls
  made since the start are, as a multiset, exactly the \<open>N\<close> jobs pushed, and so are the
  calls that have returned: each job was invoked once per submission and has finished,
  whether \<open>cleanup\<close> found it running or still queued, and none was dropped.  The backend
  is gone.
\<close>

theorem cleanup_runs_every_job:
  assumes "heap w a = Some p" and "klass p = gst_task_pool_class_init"
    and "max_threads (priv p) = - 1 \<or> 0 < max_threads (priv p)"
    and "list_all (pool_traffic a) cs"
    and "pushes_succeed cs (snd (gst_task_pool_prepare a error w))"
  shows "\<exists>w1 w2. run cs (snd (gst_task_pool_prepare a error w)) = Inr w1 \<and>
     gst_task_pool_cleanup a w1 = Inr w2 \<and>
     mset (invoked w2) = mset (invoked w) + mset (concat (map pushed_job cs)) \<and>
     mset (completed w2) = mset (completed w) + mset (concat (map pushed_job cs)) \<and>
     map_option pool (heap w2 a) = Some None"
proof (cases "exclusive (priv p) \<and> max_threads (priv p) = - 1")
  case True
  let ?w0 = "snd (gst_task_pool_prepare a error w)"
  have k: "klass_prepare (klass p) = Some Inherited"
    "klass_cleanup (klass (p\<lparr>pool := None\<rparr>)) = Some Inherited"
    using assms(2) by (simp_all add: gst_task_pool_class_init_def)
  from True prepare_refused[OF assms(1) k(1), of error] have
    p: "heap ?w0 a = Some (p\<lparr>pool := None\<rparr>)" "invoked ?w0 = invoked w"
       "completed ?w0 = completed w"
    by simp_all
  have n: "pool (p\<lparr>pool := None\<rparr>) = None" by simp
  from idle_run[OF assms(4,5) p(1) n] have
    r: "run cs ?w0 = Inr ?w0" "concat (map pushed_job cs) = []"
    by simp_all
  from cleanup_idle[OF p(1) k(2) n] have c: "gst_task_pool_cleanup a ?w0 = Inr ?w0" .
  have h: "map_option pool (heap ?w0 a) = Some None" using p(1) by simp
  from r c p(2,3) h show ?thesis by simp
next
  case False
  with assms(3) have cfg:
    "0 < max_threads (priv p) \<or> (max_threads (priv p) = - 1 \<and> \<not> exclusive (priv p))"
    by auto
  let ?w0 = "snd (gst_task_pool_prepare a error w)"
  have k: "klass_prepare (klass p) = Some Inherited" "klass_push (klass p) = Some Inherited"
    "klass_cleanup (klass p) = Some Inherited"
    using assms(2) by (simp_all add: gst_task_pool_class_init_def)
  from prepare_fresh[OF assms(1) k(1) cfg, of error] obtain tp where
    p: "heap ?w0 a = Some (p\<lparr>pool := Some tp\<rparr>)" "tp_max_threads tp = max_threads (priv p)"
       "tp_queue tp = []" "tp_running tp = []" "invoked ?w0 = invoked w"
       "completed ?w0 = completed w"
    by blast
  have m: "tp_max_threads tp = - 1 \<or> 0 < tp_max_threads tp" using p(2) assms(3) by auto
  have q: "tp_queue tp = [] \<or> 0 < tp_num_threads tp" using p(3) by simp
  have k2: "klass_push (klass (p\<lparr>pool := Some tp\<rparr>)) = Some Inherited" using k(2) by simp
  have pp: "pool (p\<lparr>pool := Some tp\<rparr>) = Some tp" by simp
  from traffic_run[OF assms(4,5) p(1) k2 pp m q] obtain w1 p1 tp1 where
    r: "run cs ?w0 = Inr w1" "heap w1 a = Some p1" "klass p1 = klass (p\<lparr>pool := Some tp\<rparr>)"
       "pool p1 = Some tp1" "tp_max_threads tp1 = tp_max_threads tp"
       "tp_queue tp1 = [] \<or> 0 < tp_num_threads tp1"
       "mset (invoked w1) + mset (queued_jobs tp1) =
          mset (invoked ?w0) + mset (queued_jobs tp) + mset (concat (map pushed_job cs))"
       "mset (completed w1) + mset (running_jobs tp1) + mset (queued_jobs tp1) =
          mset (completed ?w0) + mset (running_jobs tp) + mset (queued_jobs tp) +
          mset (concat (map pushed_job cs))"
    by blast
  have e: "queued_jobs tp = []" "running_jobs tp = []"
    using p(3,4) by (simp_all add: queued_jobs_def running_jobs_def)
  have k3: "klass_cleanup (klass p1) = Some Inherited" using r(3) k(3) by simp
  have m1: "tp_max_threads tp1 = - 1 \<or> 0 < tp_max_threads tp1" using r(5) m by simp
  from cleanup_drains[OF r(2) k3 r(4) m1 r(6)] obtain w2 where
    c: "gst_task_pool_cleanup a w1 = Inr w2" "invoked w2 = invoked w1 @ queued_jobs tp1"
       "completed w2 = completed w1 @ running_jobs tp1 @ queued_jobs tp1"
       "heap w2 a = Some (p1\<lparr>pool := None\<rparr>)"
    by blast
  have i: "mset (invoked w2) = mset (invoked w) + mset (concat (map pushed_job cs))"
    using c(2) r(7) e p(5) by simp
  have f: "mset (completed w2) = mset (completed w) + mset (concat (map pushed_job cs))"
    using c(3) r(8) e p(6) by (simp add: ac_simps)
  have h: "map_option pool (heap w2 a) = Some None" using c(4) by simp
  from r(1) c(1) i f h show ?thesis by blast
qed

theorem cleanup_runs_every_job_witness:
  "\<exists>w1 w2. run busy_traffic (snd (gst_task_pool_prepare 1 NullLoc bounded_pool_world)) = Inr w1 \<and>
     invoked w1 = [(7, 8), (9, 10)] \<and> completed w1 = [(7, 8)] \<and>
     gst_task_pool_cleanup 1 w1 = Inr w2 \<and>
     mset (invoked w2) = {#(7, 8), (9, 10), (7, 8)#} \<and>
     mset (completed w2) = {#(7, 8), (9, 10), (7, 8)#} \<and>
     map_option pool (heap w2 1) = Some None"
proof -
  have h1: "heap bounded_pool_world 1 = Some bounded_pool" by code_simp
  have h2: "klass bounded_pool = gst_task_pool_class_init" by code_simp
  have h3: "max_threads (priv bounded_pool) = - 1 \<or> 0 < max_threads (priv bounded_pool)"
    by code_simp
  have h4: "list_all (pool_traffic 1) busy_traffic" by code_simp
  have h5: "pushes_succeed busy_traffic (snd (gst_task_pool_prepare 1 NullLoc bounded_pool_world))"
    by code_simp
  have i1: "invoked bounded_pool_world = []" by code_simp
  have i2: "completed bounded_pool_world = []" by code_simp
  have i3: "mset (concat (map pushed_job busy_traffic)) = {#(7, 8), (9, 10), (7, 8)#}"
    by (simp add: busy_traffic_def)
  have b: "case run busy_traffic (snd (gst_task_pool_prepare 1 NullLoc bounded_pool_world)) of
      Inl _ \<Rightarrow> False
    | Inr w \<Rightarrow> invoked w = [(7, 8), (9, 10)] \<and> completed w = [(7, 8)]"
    by code_simp
  from cleanup_runs_every_job[OF h1 h2 h3 h4 h5] obtain w1 w2 where
    r: "run busy_traffic (snd (gst_task_pool_prepare 1 NullLoc bounded_pool_world)) = Inr w1"
    and c: "gst_task_pool_cleanup 1 w1 = Inr w2"
      "mset (invoked w2) = {#(7, 8), (9, 10), (7, 8)#}"
      "mset (completed w2) = {#(7, 8), (9, 10), (7, 8)#}"
      "map_option pool (heap w2 1) = Some None"
    unfolding i1 i2 i3 by auto
  from b have "invoked w1 = [(7, 8), (9, 10)] \<and> completed w1 = [(7, 8)]"
    unfolding r by simp
  with r c show ?thesis by blast
qed

subsection \<open>The schedule thread and the count\<close>

lemma need_cases:
  assumes "gst_task_pool_need_schedule_thread a needed w = Inr (r, w')"
  obtains
    (reject) "w' = g_critical w" "\<not> r"
  | (default) w1 p where "gst_task_pool_get_default w = (a, w1)" "heap w a = Some p"
      "w' = gst_object_unref a w1" "\<not> r"
  | (start) d w1 p pv w2 where "gst_task_pool_get_default w = (d, w1)" "a \<noteq> d"
      "heap w a = Some p" "needed" "r" "need_schedule_thread (priv p) = 0"
      "schedule_thread_start (priv p) w1 = (pv, w2)"
      "w' = update_pool a (\<lambda>q. q\<lparr>priv := pv\<lparr>need_schedule_thread := 1\<rparr>\<rparr>) w2"
  | (inc) d w1 p where "gst_task_pool_get_default w = (d, w1)" "a \<noteq> d"
      "heap w a = Some p" "needed" "r" "need_schedule_thread (priv p) \<noteq> 0"
      "need_schedule_thread (priv p) \<noteq> 2147483647"
      "w' = update_pool a (\<lambda>q. q\<lparr>priv :=
          (priv p)\<lparr>need_schedule_thread := need_schedule_thread (priv p) + 1\<rparr>\<rparr>) w1"
  | (dec) d w1 p where "gst_task_pool_get_default w = (d, w1)" "a \<noteq> d"
      "heap w a = Some p" "\<not> needed" "\<not> r" "1 < need_schedule_thread (priv p)"
      "w' = update_pool a (\<lambda>q. q\<lparr>priv :=
          (priv p)\<lparr>need_schedule_thread := need_schedule_thread (priv p) - 1\<rparr>\<rparr>) w1"
  | (stop) d w1 p pv w2 where "gst_task_pool_get_default w = (d, w1)" "a \<noteq> d"
      "heap w a = Some p" "\<not> needed" "\<not> r" "need_schedule_thread (priv p) = 1"
      "schedule_thread_stop ((priv p)\<lparr>need_schedule_thread := 0\<rparr>) w1 = Inr (pv, w2)"
      "w' = update_pool a (\<lambda>q. q\<lparr>priv := pv\<rparr>) w2"
proof (cases "heap w a")
  case None
  with assms reject show ?thesis
    by (simp add: gst_task_pool_need_schedule_thread_def)
next
  case (Some p)
  show ?thesis
  proof (cases "needed \<or> 0 < need_schedule_thread (priv p)")
    case False
    with assms Some reject show ?thesis
      by (simp add: gst_task_pool_need_schedule_thread_def)
  next
    case pre: True
    obtain d w1 where gd: "gst_task_pool_get_default w = (d, w1)"
      by (cases "gst_task_pool_get_default w")
    show ?thesis
    proof (cases "a = d")
      case True
      with assms Some pre gd default show ?thesis
        by (simp add: gst_task_pool_need_schedule_thread_def)
    next
      case ne: False
      note eq = need_other[OF Some pre gd ne]
      show ?thesis
      proof (cases needed)
        case True
        show ?thesis
        proof (cases "need_schedule_thread (priv p) = 0")
          case z: True
          obtain pv w2 where st: "schedule_thread_start (priv p) w1 = (pv, w2)"
            by (cases "schedule_thread_start (priv p) w1")
          have "need_schedule_thread pv = 0"
            using st z by (auto simp: schedule_thread_start_def Let_def split: prod.splits)
          with assms eq True z st start[OF gd ne Some True _ z st] show ?thesis
            by (auto split: if_splits)
        next
          case False
          with assms eq True inc[OF gd ne Some True _ False] show ?thesis
            by (auto split: if_splits)
        qed
      next
        case False
        with pre have pos: "0 < need_schedule_thread (priv p)" by simp
        show ?thesis
        proof (cases "need_schedule_thread (priv p) = 1")
          case True
          with assms eq False stop[OF gd ne Some False _ True] show ?thesis
            by (auto simp: Let_def split: if_splits sum.splits prod.splits)
        next
          case n1: False
          with pos have "1 < need_schedule_thread (priv p)" by simp
          with assms eq False dec[OF gd ne Some False _ this] show ?thesis
            by (auto split: if_splits)
        qed
      qed
    qed
  qed
qed

lemma frame_trans:
  assumes "schedule_frame w w1" "schedule_frame w1 w2"
  shows "schedule_frame w w2"
  unfolding schedule_frame_def
proof (intro conjI allI)
  fix a
  show "case heap w a of
          None \<Rightarrow> (case heap w2 a of None \<Rightarrow> True
             | Some p' \<Rightarrow> a < next_addr w2 \<and> schedule_handles p' = (0, None, None, None))
        | Some p \<Rightarrow> \<exists>p'. heap w2 a = Some p' \<and> schedule_handles p' = schedule_handles p"
    using assms[unfolded schedule_frame_def, THEN conjunct2, THEN conjunct2, THEN conjunct2,
        THEN conjunct2, THEN spec, of a] assms[unfolded schedule_frame_def, THEN conjunct1]
    by (auto split: option.splits)
qed (use assms in \<open>auto simp: schedule_frame_def\<close>)

lemma frame_same:
  assumes "schedule_frame w w'"
  shows "schedule_count w' a = schedule_count w a"
    and "dom (threads w') = dom (threads w)" and "dom (loops w') = dom (loops w)"
    and "dom (contexts w') = dom (contexts w)"
proof -
  from assms have h: "case heap w a of
            Some p \<Rightarrow> (\<exists>p'. heap w' a = Some p' \<and> schedule_handles p' = schedule_handles p)
          | None \<Rightarrow>
              (case heap w' a of
                 None \<Rightarrow> True
               | Some p' \<Rightarrow> a < next_addr w' \<and> schedule_handles p' = (0, None, None, None))"
    by (simp add: schedule_frame_def)
  then show "schedule_count w' a = schedule_count w a"
    by (auto simp: schedule_count_def schedule_handles_def split: option.splits)
  from assms show "dom (threads w') = dom (threads w)" "dom (contexts w') = dom (contexts w)"
    by (simp_all add: schedule_frame_def)
  from assms have "\<And>l. map_option fst (loops w' l) = map_option fst (loops w l)"
    by (simp add: schedule_frame_def)
  then have "\<And>l. (loops w' l = None) = (loops w l = None)"
    by (metis map_option_is_None)
  then show "dom (loops w') = dom (loops w)" by (auto simp: dom_def)
qed

lemma frame_heap:
  assumes "schedule_frame w w'"
  shows "heap w a = Some p \<Longrightarrow> \<exists>p'. heap w' a = Some p' \<and> schedule_handles p' = schedule_handles p"
    and "heap w' a = Some p' \<Longrightarrow>
      (\<exists>p. heap w a = Some p \<and> schedule_handles p' = schedule_handles p) \<or>
      (heap w a = None \<and> a < next_addr w' \<and> schedule_handles p' = (0, None, None, None))"
  using assms[unfolded schedule_frame_def, THEN conjunct2, THEN conjunct2, THEN conjunct2,
        THEN conjunct2, THEN spec, of a]
  by (auto split: option.splits)

lemma handles_sel:
  "schedule_handles p' = schedule_handles p \<Longrightarrow>
     need_schedule_thread (priv p') = need_schedule_thread (priv p) \<and>
     schedule_context (priv p') = schedule_context (priv p) \<and>
     schedule_loop (priv p') = schedule_loop (priv p) \<and>
     schedule_thread (priv p') = schedule_thread (priv p)"
  "schedule_handles p' = (n, c, l, t) \<Longrightarrow>
     need_schedule_thread (priv p') = n \<and> schedule_context (priv p') = c \<and>
     schedule_loop (priv p') = l \<and> schedule_thread (priv p') = t"
  by (auto simp: schedule_handles_def)

lemma frame_live:
  assumes "schedule_frame w w'"
  shows "(threads w' t = None) = (threads w t = None)"
    and "(contexts w' c = None) = (contexts w c = None)"
    and "map_option fst (loops w' l) = map_option fst (loops w l)"
    and "(loops w' l = None) = (loops w l = None)"
proof -
  from assms have d: "dom (threads w') = dom (threads w)" "dom (contexts w') = dom (contexts w)"
    and m: "map_option fst (loops w' l) = map_option fst (loops w l)"
    by (simp_all add: schedule_frame_def)
  from d(1) show "(threads w' t = None) = (threads w t = None)" by (metis domIff)
  from d(2) show "(contexts w' c = None) = (contexts w c = None)" by (metis domIff)
  from m show "map_option fst (loops w' l) = map_option fst (loops w l)" .
  from m show "(loops w' l = None) = (loops w l = None)" by (metis map_option_is_None)
qed

lemma frame_ok:
  assumes "schedule_frame w w'" "schedule_handles p' = schedule_handles p" "pool_schedule_ok w p"
  shows "pool_schedule_ok w' p'"
  using assms(3) frame_live[OF assms(1)] assms(2)
  by (auto simp: pool_schedule_ok_def split: option.splits prod.splits)

lemma idle_ok: "schedule_handles p = (0, None, None, None) \<Longrightarrow> pool_schedule_ok w p"
  by (simp add: pool_schedule_ok_def)

lemma frame_invariant:
  assumes inv: "schedule_invariant w" and fr: "schedule_frame w w'"
  shows "schedule_invariant w'"
proof -
  note live = frame_live[OF fr]
  from fr have le: "next_addr w \<le> next_addr w'" by (simp add: schedule_frame_def)
  have 1: "a < next_addr w' \<and> pool_schedule_ok w' p'" if h: "heap w' a = Some p'" for a p'
  proof -
    from frame_heap(2)[OF fr h] show ?thesis
    proof
      assume "\<exists>p. heap w a = Some p \<and> schedule_handles p' = schedule_handles p"
      then obtain p where p: "heap w a = Some p" "schedule_handles p' = schedule_handles p" by blast
      from inv p(1) have "a < next_addr w" "pool_schedule_ok w p"
        by (auto simp: schedule_invariant_def)
      with le frame_ok[OF fr p(2)] show ?thesis by simp
    next
      assume "heap w a = None \<and> a < next_addr w' \<and> schedule_handles p' = (0, None, None, None)"
      then show ?thesis using idle_ok by blast
    qed
  qed
  have 2: "t < next_addr w' \<and> (\<exists>a p. heap w' a = Some p \<and> schedule_thread (priv p) = Some t)"
    if h: "threads w' t \<noteq> None" for t
  proof -
    from h live(1) have "threads w t \<noteq> None" by simp
    with inv obtain a p where a: "t < next_addr w" "heap w a = Some p"
      "schedule_thread (priv p) = Some t"
      unfolding schedule_invariant_def by blast
    from frame_heap(1)[OF fr a(2)] obtain p' where
      "heap w' a = Some p'" "schedule_handles p' = schedule_handles p" by blast
    with a le handles_sel(1)[OF this(2)] show ?thesis by auto
  qed
  have 3: "l < next_addr w' \<and> (\<exists>a p. heap w' a = Some p \<and> schedule_loop (priv p) = Some l)"
    if h: "loops w' l \<noteq> None" for l
  proof -
    from h live(4) have "loops w l \<noteq> None" by simp
    with inv obtain a p where a: "l < next_addr w" "heap w a = Some p"
      "schedule_loop (priv p) = Some l"
      unfolding schedule_invariant_def by blast
    from frame_heap(1)[OF fr a(2)] obtain p' where
      "heap w' a = Some p'" "schedule_handles p' = schedule_handles p" by blast
    with a le handles_sel(1)[OF this(2)] show ?thesis by auto
  qed
  have 4: "c < next_addr w'" if h: "contexts w' c \<noteq> None" for c
  proof -
    from h live(2) have "contexts w c \<noteq> None" by simp
    with inv have "c < next_addr w" unfolding schedule_invariant_def by blast
    with le show ?thesis by simp
  qed
  have 5: "(\<forall>t. schedule_thread (priv p) = Some t \<longrightarrow> schedule_thread (priv q) \<noteq> Some t) \<and>
        (\<forall>l. schedule_loop (priv p) = Some l \<longrightarrow> schedule_loop (priv q) \<noteq> Some l) \<and>
        (\<forall>c. schedule_context (priv p) = Some c \<longrightarrow> schedule_context (priv q) \<noteq> Some c)"
    if h: "heap w' a = Some p" "heap w' b = Some q" "a \<noteq> b" for a b p q
  proof -
    from frame_heap(2)[OF fr h(1)] frame_heap(2)[OF fr h(2)] show ?thesis
    proof (elim disjE exE conjE)
      fix p0 q0
      assume a: "heap w a = Some p0" "schedule_handles p = schedule_handles p0"
        and b: "heap w b = Some q0" "schedule_handles q = schedule_handles q0"
      from inv a(1) b(1) h(3) have
        "(\<forall>t. schedule_thread (priv p0) = Some t \<longrightarrow> schedule_thread (priv q0) \<noteq> Some t) \<and>
        (\<forall>l. schedule_loop (priv p0) = Some l \<longrightarrow> schedule_loop (priv q0) \<noteq> Some l) \<and>
        (\<forall>c. schedule_context (priv p0) = Some c \<longrightarrow> schedule_context (priv q0) \<noteq> Some c)"
        unfolding schedule_invariant_def by blast
      with handles_sel(1)[OF a(2)] handles_sel(1)[OF b(2)] show ?thesis by simp
    qed (auto dest: handles_sel(2))
  qed
  from 1 2 3 4 5 show ?thesis unfolding schedule_invariant_def by blast
qed

lemma frame_critical: "schedule_frame w (g_critical w)"
  by (auto simp: schedule_frame_def g_critical_def split: option.splits)

lemma inv_fresh: "schedule_invariant w \<Longrightarrow> heap w (next_addr w) = None"
  unfolding schedule_invariant_def by (cases "heap w (next_addr w)") auto

lemma frame_new: "heap w (next_addr w) = None \<Longrightarrow> schedule_frame w (snd (gst_task_pool_new w))"
  by (auto simp: schedule_frame_def gst_task_pool_new_def g_object_newv_def
      gst_task_pool_init_def schedule_handles_def split: option.splits)

lemma frame_new_full:
  "heap w (next_addr w) = None \<Longrightarrow> schedule_frame w (snd (gst_task_pool_new_full m x w))"
  by (auto simp: schedule_frame_def gst_task_pool_new_full_def g_object_newv_def
      gst_task_pool_init_def schedule_handles_def update_pool_def Let_def split: option.splits)

lemma frame_prepare: "schedule_frame w (snd (gst_task_pool_prepare a error w))"
  using pool_new_world[of "max_threads (priv (the (heap w a)))"
      "exclusive (priv (the (heap w a)))" NullLoc w]
  by (auto simp: schedule_frame_def gst_task_pool_prepare_def default_prepare_def
      g_critical_def schedule_handles_def Let_def case_prod_beta
      split: option.splits vfunc.splits)

lemma frame_cleanup:
  "gst_task_pool_cleanup a w = Inr w' \<Longrightarrow> schedule_frame w w'"
  by (auto simp: schedule_frame_def gst_task_pool_cleanup_def default_cleanup_def
      g_thread_pool_free_def fold_default_func fold_default_func_return g_critical_def
      schedule_handles_def Let_def
      split: option.splits prod.splits vfunc.splits sum.splits if_splits)

lemma frame_push: "schedule_frame w (snd (snd (gst_task_pool_push a f d error w)))"
proof (cases "heap w a")
  case None
  then show ?thesis
    by (auto simp: schedule_frame_def gst_task_pool_push_def g_critical_def
        schedule_handles_def split: option.splits)
next
  case (Some p)
  show ?thesis
  proof (cases "pool p")
    case None
    with Some show ?thesis
      by (auto simp: schedule_frame_def gst_task_pool_push_def default_push_def g_warning_def
          schedule_handles_def split: option.splits vfunc.splits)
  next
    case (Some tp)
    from pool_push_world[of tp "\<lparr>func = f, user_data = d\<rparr>" error w] obtain r where
      "snd (snd (g_thread_pool_push tp \<lparr>func = f, user_data = d\<rparr> error w)) = w\<lparr>os_spawn := r\<rparr>"
      by blast
    with Some \<open>heap w a = Some p\<close> show ?thesis
      by (auto simp: schedule_frame_def gst_task_pool_push_def default_push_def g_warning_def
          schedule_handles_def Let_def case_prod_beta split: option.splits vfunc.splits)
  qed
qed

lemma frame_join: "schedule_frame w (gst_task_pool_join a h w)"
  by (auto simp: schedule_frame_def gst_task_pool_join_def default_join_def g_critical_def
      schedule_handles_def split: option.splits vfunc.splits)

lemma frame_get_context: "schedule_frame w (snd (gst_task_pool_get_schedule_context a w))"
  by (auto simp: schedule_frame_def gst_task_pool_get_schedule_context_def g_critical_def
      g_main_context_ref_def split: option.splits)

lemma frame_ref: "schedule_frame w (gst_object_ref a w)"
  by (auto simp: schedule_frame_def gst_object_ref_def g_critical_def schedule_handles_def
      split: option.splits)

lemma frame_get_default:
  assumes "heap w (next_addr w) = None"
  shows "schedule_frame w (snd (gst_task_pool_get_default w))"
proof (cases "default_pool w")
  case (Some a)
  then show ?thesis by (simp add: gst_task_pool_get_default_def frame_ref)
next
  case None
  have "schedule_frame w (snd (gst_task_pool_new w))" by (rule frame_new[OF assms])
  moreover have "schedule_frame (snd (gst_task_pool_new w))
     (snd (gst_task_pool_prepare (fst (gst_task_pool_new w)) NullLoc (snd (gst_task_pool_new w))))"
    by (rule frame_prepare)
  moreover have "schedule_frame w1 (w1\<lparr>default_pool := Some a\<rparr>)" for w1 a
    by (auto simp: schedule_frame_def split: option.splits)
  ultimately have "schedule_frame w
     ((snd (gst_task_pool_prepare (fst (gst_task_pool_new w)) NullLoc (snd (gst_task_pool_new w))))
        \<lparr>default_pool := Some (fst (gst_task_pool_new w))\<rparr>)"
    by (blast intro: frame_trans)
  from frame_trans[OF this frame_ref] None show ?thesis
    by (simp add: gst_task_pool_get_default_def case_prod_beta Let_def)
qed

lemma frame_worker_start: "schedule_frame w (worker_start_at a w)"
  by (auto simp: schedule_frame_def worker_start_at_def worker_start_def default_func_call_def
      schedule_handles_def split: option.splits list.splits)

lemma frame_worker_finish: "schedule_frame w (worker_finish_at a i w)"
  by (auto simp: schedule_frame_def worker_finish_at_def worker_finish_def
      default_func_return_def schedule_handles_def split: option.splits)

lemma frame_worker_leave: "schedule_frame w (worker_leave_at a w)"
  by (auto simp: schedule_frame_def worker_leave_at_def worker_leave_def
      schedule_handles_def split: option.splits)

lemma frame_ref_unref: "schedule_frame w (gst_object_unref a (gst_object_ref a w))"
  using ref_unref_heap[of a w] ref_unref_rest[of a w]
  by (auto simp: schedule_frame_def split: option.splits)

lemma frame_thread_runs: "schedule_frame w (schedule_thread_runs a w)"
  by (auto simp: schedule_frame_def schedule_thread_runs_def gst_task_pool_schedule_func_def
      main_loop_running_cb_def g_critical_def split: option.splits)

lemma update_pool_heap:
  "heap (update_pool a f w) b = (if b = a then map_option f (heap w a) else heap w b)"
  by (simp add: update_pool_def split: option.splits)

lemma update_pool_rest:
  "default_pool (update_pool a f w) = default_pool w"
  "next_addr (update_pool a f w) = next_addr w"
  "contexts (update_pool a f w) = contexts w"
  "loops (update_pool a f w) = loops w"
  "threads (update_pool a f w) = threads w"
  by (simp_all add: update_pool_def split: option.splits)

lemma ok_cong:
  assumes "contexts w' = contexts w" "loops w' = loops w" "threads w' = threads w"
  shows "pool_schedule_ok w' q = pool_schedule_ok w q"
  using assms by (auto simp: pool_schedule_ok_def split: prod.splits option.splits)

lemma ok_live:
  assumes "pool_schedule_ok w p"
  shows "schedule_thread (priv p) = Some t \<Longrightarrow> threads w t \<noteq> None"
    and "schedule_loop (priv p) = Some l \<Longrightarrow> loops w l \<noteq> None"
    and "schedule_context (priv p) = Some c \<Longrightarrow> contexts w c \<noteq> None"
  using assms
  by (auto simp: pool_schedule_ok_def schedule_handles_def split: option.splits)

lemma invariant_update:
  assumes inv: "schedule_invariant w" and a: "heap w a = Some p"
    and heap': "\<And>b. heap w' b = (if b = a then Some p' else heap w b)"
    and nxt: "next_addr w \<le> next_addr w'"
    and ok': "pool_schedule_ok w' p'"
    and others: "\<And>b q. b \<noteq> a \<Longrightarrow> heap w b = Some q \<Longrightarrow> pool_schedule_ok w q
        \<Longrightarrow> pool_schedule_ok w' q"
    and thr: "\<And>t. threads w' t \<noteq> None \<Longrightarrow> t < next_addr w' \<and>
        (schedule_thread (priv p') = Some t \<or>
         (threads w t \<noteq> None \<and> schedule_thread (priv p) \<noteq> Some t))"
    and lps: "\<And>l. loops w' l \<noteq> None \<Longrightarrow> l < next_addr w' \<and>
        (schedule_loop (priv p') = Some l \<or>
         (loops w l \<noteq> None \<and> schedule_loop (priv p) \<noteq> Some l))"
    and ctx: "\<And>c. contexts w' c \<noteq> None \<Longrightarrow> c < next_addr w'"
    and ft: "\<And>t. schedule_thread (priv p') = Some t \<Longrightarrow>
        schedule_thread (priv p) = Some t \<or> next_addr w \<le> t"
    and fl: "\<And>l. schedule_loop (priv p') = Some l \<Longrightarrow>
        schedule_loop (priv p) = Some l \<or> next_addr w \<le> l"
    and fc: "\<And>c. schedule_context (priv p') = Some c \<Longrightarrow>
        schedule_context (priv p) = Some c \<or> next_addr w \<le> c"
  shows "schedule_invariant w'"
proof -
  from inv have I1: "\<And>b q. heap w b = Some q \<Longrightarrow> b < next_addr w \<and> pool_schedule_ok w q"
    and I2: "\<And>t. threads w t \<noteq> None \<Longrightarrow>
        t < next_addr w \<and> (\<exists>b q. heap w b = Some q \<and> schedule_thread (priv q) = Some t)"
    and I3: "\<And>l. loops w l \<noteq> None \<Longrightarrow>
        l < next_addr w \<and> (\<exists>b q. heap w b = Some q \<and> schedule_loop (priv q) = Some l)"
    and I4: "\<And>c. contexts w c \<noteq> None \<Longrightarrow> c < next_addr w"
    and I5: "\<And>b b' q q'. heap w b = Some q \<Longrightarrow> heap w b' = Some q' \<Longrightarrow> b \<noteq> b' \<Longrightarrow>
        (\<forall>t. schedule_thread (priv q) = Some t \<longrightarrow> schedule_thread (priv q') \<noteq> Some t) \<and>
        (\<forall>l. schedule_loop (priv q) = Some l \<longrightarrow> schedule_loop (priv q') \<noteq> Some l) \<and>
        (\<forall>c. schedule_context (priv q) = Some c \<longrightarrow> schedule_context (priv q') \<noteq> Some c)"
    unfolding schedule_invariant_def by blast+
  have 1: "b < next_addr w' \<and> pool_schedule_ok w' q" if h: "heap w' b = Some q" for b q
  proof (cases "b = a")
    case True
    with h heap'[of b] have "q = p'" by simp
    with True I1[OF a] nxt ok' show ?thesis by simp
  next
    case False
    with h heap'[of b] have "heap w b = Some q" by simp
    with I1[OF this] others[OF False this] nxt show ?thesis by simp
  qed
  have 2: "t < next_addr w' \<and> (\<exists>b q. heap w' b = Some q \<and> schedule_thread (priv q) = Some t)"
    if h: "threads w' t \<noteq> None" for t
  proof -
    from thr[OF h] have lt: "t < next_addr w'"
      and d: "schedule_thread (priv p') = Some t \<or>
         (threads w t \<noteq> None \<and> schedule_thread (priv p) \<noteq> Some t)" by simp_all
    from d show ?thesis
    proof
      assume "schedule_thread (priv p') = Some t"
      moreover have "heap w' a = Some p'" by (simp add: heap')
      ultimately show ?thesis using lt by blast
    next
      assume o: "threads w t \<noteq> None \<and> schedule_thread (priv p) \<noteq> Some t"
      with I2[of t] obtain b q where b: "heap w b = Some q" "schedule_thread (priv q) = Some t"
        by blast
      with o a have "b \<noteq> a" by auto
      with b have "heap w' b = Some q" by (simp add: heap')
      with b lt show ?thesis by blast
    qed
  qed
  have 3: "l < next_addr w' \<and> (\<exists>b q. heap w' b = Some q \<and> schedule_loop (priv q) = Some l)"
    if h: "loops w' l \<noteq> None" for l
  proof -
    from lps[OF h] have lt: "l < next_addr w'"
      and d: "schedule_loop (priv p') = Some l \<or>
         (loops w l \<noteq> None \<and> schedule_loop (priv p) \<noteq> Some l)" by simp_all
    from d show ?thesis
    proof
      assume "schedule_loop (priv p') = Some l"
      moreover have "heap w' a = Some p'" by (simp add: heap')
      ultimately show ?thesis using lt by blast
    next
      assume o: "loops w l \<noteq> None \<and> schedule_loop (priv p) \<noteq> Some l"
      with I3[of l] obtain b q where b: "heap w b = Some q" "schedule_loop (priv q) = Some l"
        by blast
      with o a have "b \<noteq> a" by auto
      with b have "heap w' b = Some q" by (simp add: heap')
      with b lt show ?thesis by blast
    qed
  qed
  have sep: "schedule_thread (priv q) \<noteq> Some t \<and> schedule_thread (priv p') \<noteq> schedule_thread (priv q)"
    if "b \<noteq> a" "heap w b = Some q" "schedule_thread (priv p') = Some t" for b q t
  proof -
    from ft[OF that(3)] show ?thesis
    proof
      assume "schedule_thread (priv p) = Some t"
      with I5[OF a that(2)] that show ?thesis by auto
    next
      assume n: "next_addr w \<le> t"
      have "schedule_thread (priv q) \<noteq> Some t"
      proof
        assume "schedule_thread (priv q) = Some t"
        with ok_live(1)[of w q t] I1[OF that(2)] I2[of t] n show False by auto
      qed
      with that(3) show ?thesis by auto
    qed
  qed
  have sepl: "schedule_loop (priv q) \<noteq> Some l"
    if "b \<noteq> a" "heap w b = Some q" "schedule_loop (priv p') = Some l" for b q l
  proof -
    from fl[OF that(3)] show ?thesis
    proof
      assume "schedule_loop (priv p) = Some l"
      with I5[OF a that(2)] that show ?thesis by auto
    next
      assume n: "next_addr w \<le> l"
      show "schedule_loop (priv q) \<noteq> Some l"
      proof
        assume "schedule_loop (priv q) = Some l"
        with ok_live(2)[of w q l] I1[OF that(2)] I3[of l] n show False by auto
      qed
    qed
  qed
  have sepc: "schedule_context (priv q) \<noteq> Some c"
    if "b \<noteq> a" "heap w b = Some q" "schedule_context (priv p') = Some c" for b q c
  proof -
    from fc[OF that(3)] show ?thesis
    proof
      assume "schedule_context (priv p) = Some c"
      with I5[OF a that(2)] that show ?thesis by auto
    next
      assume n: "next_addr w \<le> c"
      show "schedule_context (priv q) \<noteq> Some c"
      proof
        assume "schedule_context (priv q) = Some c"
        with ok_live(3)[of w q c] I1[OF that(2)] I4[of c] n show False by auto
      qed
    qed
  qed
  have 5: "(\<forall>t. schedule_thread (priv q) = Some t \<longrightarrow> schedule_thread (priv q') \<noteq> Some t) \<and>
        (\<forall>l. schedule_loop (priv q) = Some l \<longrightarrow> schedule_loop (priv q') \<noteq> Some l) \<and>
        (\<forall>c. schedule_context (priv q) = Some c \<longrightarrow> schedule_context (priv q') \<noteq> Some c)"
    if h: "heap w' b = Some q" "heap w' b' = Some q'" "b \<noteq> b'" for b b' q q'
  proof (cases "b = a")
    case True
    with h heap'[of b] heap'[of b'] have q: "q = p'" "heap w b' = Some q'" "b' \<noteq> a" by auto
    with sep[OF q(3,2)] sepl[OF q(3,2)] sepc[OF q(3,2)] show ?thesis by auto
  next
    case False
    with h heap'[of b] have hb: "heap w b = Some q" by simp
    show ?thesis
    proof (cases "b' = a")
      case True
      with h heap'[of b'] have q: "q' = p'" by simp
      with sep[OF False hb] sepl[OF False hb] sepc[OF False hb] show ?thesis by auto
    next
      case b': False
      with h heap'[of b'] have "heap w b' = Some q'" by simp
      from I5[OF hb this h(3)] show ?thesis .
    qed
  qed
  from 1 2 3 ctx 5 show ?thesis unfolding schedule_invariant_def by blast
qed

lemma count_change_invariant:
  assumes "schedule_invariant w" "heap w a = Some p" "0 < need_schedule_thread (priv p)" "0 < n"
  shows "schedule_invariant
     (update_pool a (\<lambda>q. q\<lparr>priv := (priv p)\<lparr>need_schedule_thread := n\<rparr>\<rparr>) w)"
    (is "schedule_invariant ?w'")
proof (rule invariant_update[OF assms(1,2), where p'="p\<lparr>priv := (priv p)\<lparr>need_schedule_thread := n\<rparr>\<rparr>"])
  note rest = update_pool_rest[of a _ w]
  from assms(1,2) have oka: "pool_schedule_ok w p" by (auto simp: schedule_invariant_def)
  show "heap ?w' b = (if b = a then Some (p\<lparr>priv := (priv p)\<lparr>need_schedule_thread := n\<rparr>\<rparr>)
     else heap w b)" for b
    using assms(2) by (simp add: update_pool_heap)
  show "next_addr w \<le> next_addr ?w'" by (simp add: rest)
  show "pool_schedule_ok ?w' (p\<lparr>priv := (priv p)\<lparr>need_schedule_thread := n\<rparr>\<rparr>)"
    using oka assms(3,4)
    by (auto simp: pool_schedule_ok_def schedule_handles_def rest split: option.splits)
  show "pool_schedule_ok ?w' q" if "pool_schedule_ok w q" for q
    using that ok_cong[OF rest(3,4,5)] by simp
  show "t < next_addr ?w' \<and>
        (schedule_thread (priv (p\<lparr>priv := (priv p)\<lparr>need_schedule_thread := n\<rparr>\<rparr>)) = Some t \<or>
         (threads w t \<noteq> None \<and> schedule_thread (priv p) \<noteq> Some t))"
    if "threads ?w' t \<noteq> None" for t
    using that assms(1) by (auto simp: rest schedule_invariant_def)
  show "l < next_addr ?w' \<and>
        (schedule_loop (priv (p\<lparr>priv := (priv p)\<lparr>need_schedule_thread := n\<rparr>\<rparr>)) = Some l \<or>
         (loops w l \<noteq> None \<and> schedule_loop (priv p) \<noteq> Some l))"
    if "loops ?w' l \<noteq> None" for l
    using that assms(1) by (auto simp: rest schedule_invariant_def)
  show "c < next_addr ?w'" if "contexts ?w' c \<noteq> None" for c
    using that assms(1) by (auto simp: rest schedule_invariant_def)
qed simp_all

lemma start_effect:
  assumes "schedule_thread_start pv w = (pv', w')"
  shows "pv' = pv\<lparr>schedule_context := Some (next_addr w),
                  schedule_loop := Some (Suc (next_addr w)),
                  schedule_thread := Some (Suc (Suc (next_addr w)))\<rparr>"
    and "heap w' = heap w" and "default_pool w' = default_pool w"
    and "next_addr w' = Suc (Suc (Suc (next_addr w)))"
    and "\<exists>s. threads w' = (threads w)(Suc (Suc (next_addr w)) \<mapsto> s)"
    and "\<exists>r. loops w' = (loops w)(Suc (next_addr w) \<mapsto> (next_addr w, r))"
    and "contexts w' = (contexts w)(next_addr w \<mapsto> 2)"
  using assms
  by (auto simp: schedule_thread_start_def g_main_context_new_def g_main_loop_new_def
      g_main_context_ref_def g_thread_new_def g_cond_wait_def gst_task_pool_schedule_func_def
      main_loop_running_cb_def g_critical_def Let_def split: list.splits wake.splits)

lemma unref_effect:
  "\<exists>v. contexts (g_main_context_unref (Some c) w) = (contexts w)(c := v) \<and>
     (case v of None \<Rightarrow> True
      | Some n' \<Rightarrow> (case contexts w c of None \<Rightarrow> False | Some n \<Rightarrow> n' < n))"
  by (auto simp: g_main_context_unref_def g_critical_def fun_upd_idem split: option.splits)

lemma unref_exact:
  "contexts (g_main_context_unref (Some c) w) =
     (contexts w)(c := (case contexts w c of
                          None \<Rightarrow> None
                        | Some n \<Rightarrow> if n \<le> 1 then None else Some (n - 1)))"
  by (auto simp: g_main_context_unref_def g_critical_def fun_upd_idem split: option.splits)

lemma unref_rest:
  "heap (g_main_context_unref x w) = heap w"
  "default_pool (g_main_context_unref x w) = default_pool w"
  "next_addr (g_main_context_unref x w) = next_addr w"
  "threads (g_main_context_unref x w) = threads w"
  "loops (g_main_context_unref x w) = loops w"
  by (auto simp: g_main_context_unref_def g_critical_def split: option.splits)

lemma stop_effect:
  assumes "schedule_thread_stop pv w = Inr (pv', w')"
    and "schedule_thread pv = Some t" "schedule_loop pv = Some l" "schedule_context pv = Some c"
    and "map_option fst (loops w l) = Some c"
  shows "pv' = pv\<lparr>schedule_loop := None, schedule_context := None, schedule_thread := None\<rparr>"
    and "heap w' = heap w" and "default_pool w' = default_pool w"
    and "next_addr w' = next_addr w"
    and "threads w' = (threads w)(t := None)"
    and "loops w' = (loops w)(l := None)"
    and "\<exists>v. contexts w' = (contexts w)(c := v) \<and>
     (case v of None \<Rightarrow> True
      | Some n' \<Rightarrow> (case contexts w c of None \<Rightarrow> False | Some n \<Rightarrow> n' < n))"
    and "contexts w' c =
     (case contexts w c of None \<Rightarrow> None | Some n \<Rightarrow> if n \<le> 2 then None else Some (n - 2))"
proof -
  from assms(5) obtain r where lp: "loops w l = Some (c, r)" by auto
  let ?w1 = "g_main_loop_quit (Some l) w"
  have w1: "?w1 = w\<lparr>loops := (loops w)(l \<mapsto> (c, False))\<rparr>"
    using lp by (simp add: g_main_loop_quit_def)
  from assms(1,2,3) obtain w2 where j: "g_thread_join (Some t) ?w1 = Inr w2"
    and w': "w' = g_main_context_unref (Some c) (g_main_loop_unref (Some l) w2)"
    and pv': "pv' = pv\<lparr>schedule_loop := None, schedule_context := None, schedule_thread := None\<rparr>"
    using assms(4) by (auto simp: schedule_thread_stop_def split: sum.splits)
  from j have w2: "w2 = ?w1\<lparr>threads := (threads ?w1)(t := None)\<rparr>"
    by (auto simp: g_thread_join_def split: option.splits tstate.splits bool.splits prod.splits)
  let ?w3 = "g_main_loop_unref (Some l) w2"
  have w3: "?w3 = g_main_context_unref (Some c) (w2\<lparr>loops := (loops w2)(l := None)\<rparr>)"
    by (simp add: g_main_loop_unref_def w2 w1)
  show "pv' = pv\<lparr>schedule_loop := None, schedule_context := None, schedule_thread := None\<rparr>"
    by (rule pv')
  show "heap w' = heap w" "default_pool w' = default_pool w" "next_addr w' = next_addr w"
    "threads w' = (threads w)(t := None)" "loops w' = (loops w)(l := None)"
    unfolding w' w3 by (simp_all add: unref_rest w2 w1)
  have cw: "contexts (w2\<lparr>loops := (loops w2)(l := None)\<rparr>) = contexts w"
    by (simp add: w2 w1)
  from unref_effect[of c "w2\<lparr>loops := (loops w2)(l := None)\<rparr>"] obtain v1 where
    v1: "contexts ?w3 = (contexts w)(c := v1)"
      "case v1 of None \<Rightarrow> True
        | Some n' \<Rightarrow> (case contexts w c of None \<Rightarrow> False | Some n \<Rightarrow> n' < n)"
    unfolding w3 cw by blast
  from unref_effect[of c ?w3] obtain v2 where
    v2: "contexts w' = (contexts ?w3)(c := v2)"
      "case v2 of None \<Rightarrow> True
        | Some n' \<Rightarrow> (case contexts ?w3 c of None \<Rightarrow> False | Some n \<Rightarrow> n' < n)"
    unfolding w' by blast
  have "contexts w' = (contexts w)(c := v2)" using v1(1) v2(1) by simp
  moreover have "case v2 of None \<Rightarrow> True
        | Some n' \<Rightarrow> (case contexts w c of None \<Rightarrow> False | Some n \<Rightarrow> n' < n)"
    using v1 v2(2) by (auto split: option.splits)
  ultimately show "\<exists>v. contexts w' = (contexts w)(c := v) \<and>
     (case v of None \<Rightarrow> True
      | Some n' \<Rightarrow> (case contexts w c of None \<Rightarrow> False | Some n \<Rightarrow> n' < n))"
    by blast
  have x3: "contexts ?w3 c =
      (case contexts w c of None \<Rightarrow> None | Some n \<Rightarrow> if n \<le> 1 then None else Some (n - 1))"
    unfolding w3 by (simp add: unref_exact cw)
  have "contexts w' c =
      (case contexts ?w3 c of None \<Rightarrow> None | Some n \<Rightarrow> if n \<le> 1 then None else Some (n - 1))"
    unfolding w' by (simp add: unref_exact)
  then show "contexts w' c =
     (case contexts w c of None \<Rightarrow> None | Some n \<Rightarrow> if n \<le> 2 then None else Some (n - 2))"
    unfolding x3 by (auto split: option.splits)
qed

lemma inv_bounds:
  assumes "schedule_invariant w"
  shows "threads w t \<noteq> None \<Longrightarrow> t < next_addr w"
    and "loops w l \<noteq> None \<Longrightarrow> l < next_addr w"
    and "contexts w c \<noteq> None \<Longrightarrow> c < next_addr w"
    and "heap w a = Some p \<Longrightarrow> pool_schedule_ok w p"
  using assms unfolding schedule_invariant_def by blast+

lemma ok_cases:
  assumes "pool_schedule_ok w p"
  obtains (idle) "schedule_handles p = (0, None, None, None)"
  | (active) n c l t where "schedule_handles p = (n, Some c, Some l, Some t)" "0 < n"
      "contexts w c \<noteq> None" "map_option fst (loops w l) = Some c" "threads w t \<noteq> None"
  using assms
  by (auto simp: pool_schedule_ok_def split: prod.splits option.splits)

lemma start_invariant:
  assumes inv: "schedule_invariant w" and a': "heap w a = Some p"
    and z: "need_schedule_thread (priv p) = 0"
    and st: "schedule_thread_start (priv p) w = (pv, w2)"
  shows "schedule_invariant
     (update_pool a (\<lambda>q. q\<lparr>priv := pv\<lparr>need_schedule_thread := 1\<rparr>\<rparr>) w2)"
    (is "schedule_invariant ?w'")
proof -
  note e = start_effect[OF st]
  note rest = update_pool_rest[of a _ w2]
  let ?c = "next_addr w" and ?l = "Suc (next_addr w)" and ?t = "Suc (Suc (next_addr w))"
  let ?p' = "p\<lparr>priv := pv\<lparr>need_schedule_thread := 1\<rparr>\<rparr>"
  from e(5) obtain s where th: "threads w2 = (threads w)(?t \<mapsto> s)" by blast
  from e(6) obtain r where lp: "loops w2 = (loops w)(?l \<mapsto> (?c, r))" by blast
  note cx = e(7)
  have nc: "contexts w c \<noteq> None \<Longrightarrow> c \<noteq> ?c" for c
    using inv_bounds(3)[OF inv, of c] by auto
  have nl: "loops w l \<noteq> None \<Longrightarrow> l \<noteq> ?l" for l
    using inv_bounds(2)[OF inv, of l] by auto
  have nt: "threads w t \<noteq> None \<Longrightarrow> t \<noteq> ?t" for t
    using inv_bounds(1)[OF inv, of t] by auto
  have idle: "schedule_thread (priv p) = None" "schedule_loop (priv p) = None"
    "schedule_context (priv p) = None"
    using inv_bounds(4)[OF inv a'] z
    by (auto simp: pool_schedule_ok_def schedule_handles_def split: option.splits)
  show ?thesis
  proof (rule invariant_update[OF inv a', where p'="?p'"])
    show "heap ?w' b = (if b = a then Some ?p' else heap w b)" for b
      using a' e(2) by (simp add: update_pool_heap)
    show "next_addr w \<le> next_addr ?w'" by (simp add: rest e(4))
    show "pool_schedule_ok ?w' ?p'"
      by (simp add: pool_schedule_ok_def schedule_handles_def rest e(1) th lp cx)
    show "pool_schedule_ok ?w' q" if "b \<noteq> a" "heap w b = Some q" "pool_schedule_ok w q" for b q
    proof -
      from that(3) show ?thesis
      proof (cases rule: ok_cases)
        case idle
        then show ?thesis by (simp add: pool_schedule_ok_def)
      next
        case (active n c l t)
        from active(4) have "loops w l \<noteq> None" by auto
        from nc[OF active(3)] nt[OF active(5)] nl[OF this]
        have "c \<noteq> ?c" "t \<noteq> ?t" "l \<noteq> ?l" by auto
        with active show ?thesis
          by (simp add: pool_schedule_ok_def rest th lp cx)
      qed
    qed
    show "t < next_addr ?w' \<and>
        (schedule_thread (priv ?p') = Some t \<or>
         (threads w t \<noteq> None \<and> schedule_thread (priv p) \<noteq> Some t))"
      if "threads ?w' t \<noteq> None" for t
      using that inv_bounds(1)[OF inv, of t] idle
      by (auto simp: rest e(1) e(4) th split: if_splits)
    show "l < next_addr ?w' \<and>
        (schedule_loop (priv ?p') = Some l \<or>
         (loops w l \<noteq> None \<and> schedule_loop (priv p) \<noteq> Some l))"
      if "loops ?w' l \<noteq> None" for l
      using that inv_bounds(2)[OF inv, of l] idle
      by (auto simp: rest e(1) e(4) lp split: if_splits)
    show "c < next_addr ?w'" if "contexts ?w' c \<noteq> None" for c
      using that inv_bounds(3)[OF inv, of c]
      by (auto simp: rest e(4) cx split: if_splits)
  qed (simp_all add: e(1))
qed

lemma stop_invariant:
  assumes inv: "schedule_invariant w" and a': "heap w a = Some p"
    and z: "need_schedule_thread (priv p) = 1"
    and st: "schedule_thread_stop ((priv p)\<lparr>need_schedule_thread := 0\<rparr>) w = Inr (pv, w2)"
  shows "schedule_invariant (update_pool a (\<lambda>q. q\<lparr>priv := pv\<rparr>) w2)"
    (is "schedule_invariant ?w'")
proof -
  from inv_bounds(4)[OF inv a'] z obtain c l t where
    h: "schedule_context (priv p) = Some c" "schedule_loop (priv p) = Some l"
       "schedule_thread (priv p) = Some t" "map_option fst (loops w l) = Some c"
    by (cases rule: ok_cases) (auto simp: schedule_handles_def)
  have hs: "schedule_thread ((priv p)\<lparr>need_schedule_thread := 0\<rparr>) = Some t"
    "schedule_loop ((priv p)\<lparr>need_schedule_thread := 0\<rparr>) = Some l"
    "schedule_context ((priv p)\<lparr>need_schedule_thread := 0\<rparr>) = Some c"
    using h by simp_all
  note e = stop_effect[OF st hs h(4)]
  from e(7) obtain v where cx: "contexts w2 = (contexts w)(c := v)"
    and v: "case v of None \<Rightarrow> True
      | Some n' \<Rightarrow> (case contexts w c of None \<Rightarrow> False | Some n \<Rightarrow> n' < n)"
    by blast
  note rest = update_pool_rest[of a _ w2]
  let ?p' = "p\<lparr>priv := pv\<rparr>"
  from inv have I5: "\<And>b b' q q'. heap w b = Some q \<Longrightarrow> heap w b' = Some q' \<Longrightarrow> b \<noteq> b' \<Longrightarrow>
        (\<forall>t. schedule_thread (priv q) = Some t \<longrightarrow> schedule_thread (priv q') \<noteq> Some t) \<and>
        (\<forall>l. schedule_loop (priv q) = Some l \<longrightarrow> schedule_loop (priv q') \<noteq> Some l) \<and>
        (\<forall>c. schedule_context (priv q) = Some c \<longrightarrow> schedule_context (priv q') \<noteq> Some c)"
    unfolding schedule_invariant_def by blast
  show ?thesis
  proof (rule invariant_update[OF inv a', where p'="?p'"])
    show "heap ?w' b = (if b = a then Some ?p' else heap w b)" for b
      using a' e(2) by (simp add: update_pool_heap)
    show "next_addr w \<le> next_addr ?w'" by (simp add: rest e(4))
    show "pool_schedule_ok ?w' ?p'"
      by (simp add: pool_schedule_ok_def schedule_handles_def e(1))
    show "pool_schedule_ok ?w' q" if "b \<noteq> a" "heap w b = Some q" "pool_schedule_ok w q" for b q
    proof -
      from that(3) show ?thesis
      proof (cases rule: ok_cases)
        case idle
        then show ?thesis by (simp add: pool_schedule_ok_def)
      next
        case (active n c' l' t')
        from I5[OF a' that(2)] that(1) h active(1)
        have "c' \<noteq> c" "l' \<noteq> l" "t' \<noteq> t" by (auto simp: schedule_handles_def)
        with active show ?thesis
          by (simp add: pool_schedule_ok_def rest e(5) e(6) cx)
      qed
    qed
    show "t' < next_addr ?w' \<and>
        (schedule_thread (priv ?p') = Some t' \<or>
         (threads w t' \<noteq> None \<and> schedule_thread (priv p) \<noteq> Some t'))"
      if "threads ?w' t' \<noteq> None" for t'
      using that inv_bounds(1)[OF inv, of t'] h
      by (auto simp: rest e(5) e(4) split: if_splits)
    show "l' < next_addr ?w' \<and>
        (schedule_loop (priv ?p') = Some l' \<or>
         (loops w l' \<noteq> None \<and> schedule_loop (priv p) \<noteq> Some l'))"
      if "loops ?w' l' \<noteq> None" for l'
      using that inv_bounds(2)[OF inv, of l'] h
      by (auto simp: rest e(6) e(4) split: if_splits)
    show "c' < next_addr ?w'" if "contexts ?w' c' \<noteq> None" for c'
    proof (cases "c' = c")
      case True
      with that v have "contexts w c \<noteq> None" by (auto simp: rest cx split: option.splits)
      with inv_bounds(3)[OF inv, of c] True show ?thesis by (simp add: rest e(4))
    next
      case False
      with that inv_bounds(3)[OF inv, of c'] show ?thesis
        by (simp add: rest e(4) cx)
    qed
  qed (simp_all add: e(1))
qed

lemma frame_quiet: "schedule_frame w w' \<Longrightarrow> schedule_quiet w w'"
  using frame_same[of w w'] by (simp add: schedule_quiet_def)

lemma get_default_fst:
  "fst (gst_task_pool_get_default w) =
     (case default_pool w of None \<Rightarrow> next_addr w | Some d \<Rightarrow> d)"
  by (auto simp: gst_task_pool_get_default_def gst_task_pool_new_def g_object_newv_def
      Let_def split: option.splits prod.splits)

lemma need_default_frame:
  assumes inv: "schedule_invariant w" and gd: "gst_task_pool_get_default w = (a, w1)"
    and h: "heap w a = Some p"
  shows "schedule_frame w (gst_object_unref a w1)"
proof -
  from inv_fresh[OF inv] h have "a \<noteq> next_addr w" by auto
  with gd get_default_fst[of w] obtain d where d: "default_pool w = Some d"
    by (cases "default_pool w") auto
  with gd have "a = d" "w1 = gst_object_ref a w"
    by (auto simp: gst_task_pool_get_default_def)
  then show ?thesis by (simp add: frame_ref_unref)
qed

lemma inv_fresh_handles:
  assumes "schedule_invariant w" "next_addr w \<le> n"
  shows "contexts w n = None" "loops w n = None" "threads w n = None"
proof -
  show "contexts w n = None"
  proof (rule ccontr)
    assume "contexts w n \<noteq> None"
    from inv_bounds(3)[OF assms(1) this] assms(2) show False by simp
  qed
  show "loops w n = None"
  proof (rule ccontr)
    assume "loops w n \<noteq> None"
    from inv_bounds(2)[OF assms(1) this] assms(2) show False by simp
  qed
  show "threads w n = None"
  proof (rule ccontr)
    assume "threads w n \<noteq> None"
    from inv_bounds(1)[OF assms(1) this] assms(2) show False by simp
  qed
qed

lemma need_step:
  assumes inv: "schedule_invariant w"
    and st: "gst_task_pool_need_schedule_thread a needed w = Inr (r, w')"
  shows "schedule_invariant w' \<and>
    (schedule_quiet w w' \<or> schedule_started (NeedScheduleThread a needed) w w' \<or>
     schedule_stopped (NeedScheduleThread a needed) w w' \<or>
     schedule_counted (NeedScheduleThread a needed) w w')"
  using st
proof (cases rule: need_cases)
  case reject
  with frame_critical[of w] frame_invariant[OF inv] frame_quiet show ?thesis by auto
next
  case (default w1 p)
  from need_default_frame[OF inv default(1,2)] default(3)
    frame_invariant[OF inv] frame_quiet show ?thesis by auto
next
  case (start d w1 p pv w2)
  from frame_get_default[OF inv_fresh[OF inv]] start(1) have fr: "schedule_frame w w1" by simp
  note inv1 = frame_invariant[OF inv fr]
  note o = get_default_other[OF start(1,2)]
  from o start(3) have h1: "heap w1 a = Some p" by simp
  note e = start_effect[OF start(7)]
  note same = frame_same[OF fr]
  let ?x = "next_addr w1" and ?l = "Suc (next_addr w1)" and ?t = "Suc (Suc (next_addr w1))"
  have i': "schedule_invariant w'"
    using start_invariant[OF inv1 h1 start(6,7)] start(8) by simp
  have hp: "heap w' a = Some (p\<lparr>priv := pv\<lparr>need_schedule_thread := 1\<rparr>\<rparr>)"
    using start(3,8) h1 e(2) by (simp add: update_pool_heap)
  have hd: "schedule_handles (p\<lparr>priv := pv\<lparr>need_schedule_thread := 1\<rparr>\<rparr>) =
      (1, Some ?x, Some ?l, Some ?t)"
    by (simp add: schedule_handles_def e(1))
  have c0: "schedule_count w a = 0" using start(3,6) by (simp add: schedule_count_def)
  have fx: "?x \<notin> dom (contexts w1)" "?l \<notin> dom (loops w1)" "?t \<notin> dom (threads w1)"
    using inv_fresh_handles[OF inv1, of ?x] inv_fresh_handles[OF inv1, of ?l]
      inv_fresh_handles[OF inv1, of ?t] by (simp_all add: domIff)
  from e(5) obtain s where th: "threads w2 = (threads w1)(?t \<mapsto> s)" by blast
  from e(6) obtain rr where lp: "loops w2 = (loops w1)(?l \<mapsto> (?x, rr))" by blast
  have dc: "dom (contexts w') = insert ?x (dom (contexts w1))"
    by (simp add: start(8) update_pool_rest e(7))
  have dl: "dom (loops w') = insert ?l (dom (loops w1))"
    by (simp add: start(8) update_pool_rest lp)
  have dt: "dom (threads w') = insert ?t (dom (threads w1))"
    by (simp add: start(8) update_pool_rest th)
  have oth: "schedule_count w' b = schedule_count w b" if "b \<noteq> a" for b
    using that same(1)[of b] e(2) by (simp add: start(8) schedule_count_def update_pool_heap)
  have c2: "contexts w' ?x = Some 2"
    by (simp add: start(8) update_pool_rest e(7))
  have "schedule_started (NeedScheduleThread a needed) w w'"
    unfolding schedule_started_def
    using start(4) c0 hp hd fx dc c2 dl dt oth same(2,3,4) by auto
  with i' show ?thesis by simp
next
  case (inc d w1 p)
  from frame_get_default[OF inv_fresh[OF inv]] inc(1) have fr: "schedule_frame w w1" by simp
  note inv1 = frame_invariant[OF inv fr]
  note o = get_default_other[OF inc(1,2)]
  from o inc(3) have h1: "heap w1 a = Some p" by simp
  note same = frame_same[OF fr]
  from inv_bounds(4)[OF inv inc(3)] inc(6) have pos: "0 < need_schedule_thread (priv p)"
    by (cases rule: ok_cases) (auto simp: schedule_handles_def)
  have i': "schedule_invariant w'"
    using count_change_invariant[OF inv1 h1 pos, of "need_schedule_thread (priv p) + 1"] pos inc(8)
    by simp
  have ca: "schedule_count w a = need_schedule_thread (priv p)"
    "schedule_count w' a = need_schedule_thread (priv p) + 1"
    using inc(3,8) h1 by (simp_all add: schedule_count_def update_pool_heap)
  have oth: "schedule_count w' b = schedule_count w b" if "b \<noteq> a" for b
    using that same(1)[of b] by (simp add: inc(8) schedule_count_def update_pool_heap)
  have "schedule_counted (NeedScheduleThread a needed) w w'"
    unfolding schedule_counted_def
    using inc(4) ca pos oth same(2,3,4) by (auto simp: inc(8) update_pool_rest)
  with i' show ?thesis by simp
next
  case (dec d w1 p)
  from frame_get_default[OF inv_fresh[OF inv]] dec(1) have fr: "schedule_frame w w1" by simp
  note inv1 = frame_invariant[OF inv fr]
  note o = get_default_other[OF dec(1,2)]
  from o dec(3) have h1: "heap w1 a = Some p" by simp
  note same = frame_same[OF fr]
  from dec(6) have pos: "0 < need_schedule_thread (priv p)" by simp
  have i': "schedule_invariant w'"
    using count_change_invariant[OF inv1 h1 pos, of "need_schedule_thread (priv p) - 1"] dec(6,7)
    by simp
  have ca: "schedule_count w a = need_schedule_thread (priv p)"
    "schedule_count w' a = need_schedule_thread (priv p) - 1"
    using dec(3,7) h1 by (simp_all add: schedule_count_def update_pool_heap)
  have oth: "schedule_count w' b = schedule_count w b" if "b \<noteq> a" for b
    using that same(1)[of b] by (simp add: dec(7) schedule_count_def update_pool_heap)
  have "schedule_counted (NeedScheduleThread a needed) w w'"
    unfolding schedule_counted_def
    using dec(4,6) ca oth same(2,3,4) by (auto simp: dec(7) update_pool_rest)
  with i' show ?thesis by simp
next
  case (stop d w1 p pv w2)
  from frame_get_default[OF inv_fresh[OF inv]] stop(1) have fr: "schedule_frame w w1" by simp
  note inv1 = frame_invariant[OF inv fr]
  note o = get_default_other[OF stop(1,2)]
  from o stop(3) have h1: "heap w1 a = heap w a" and h1': "heap w1 a = Some p" by simp_all
  note same = frame_same[OF fr]
  from inv_bounds(4)[OF inv1 h1'] stop(6) obtain x l t where
    h: "schedule_handles p = (1, Some x, Some l, Some t)" "contexts w1 x \<noteq> None"
       "map_option fst (loops w1 l) = Some x" "threads w1 t \<noteq> None"
    by (cases rule: ok_cases) (auto simp: schedule_handles_def)
  have hs: "schedule_thread ((priv p)\<lparr>need_schedule_thread := 0\<rparr>) = Some t"
    "schedule_loop ((priv p)\<lparr>need_schedule_thread := 0\<rparr>) = Some l"
    "schedule_context ((priv p)\<lparr>need_schedule_thread := 0\<rparr>) = Some x"
    using h(1) by (simp_all add: schedule_handles_def)
  note e = stop_effect[OF stop(7) hs h(3)]
  have i': "schedule_invariant w'"
    using stop_invariant[OF inv1 h1' stop(6,7)] stop(8) by simp
  have c0: "schedule_count w' a = 0"
    using h1' e(1,2) by (simp add: stop(8) schedule_count_def update_pool_heap)
  have oth: "schedule_count w' b = schedule_count w b" if "b \<noteq> a" for b
    using that same(1)[of b] e(2) by (simp add: stop(8) schedule_count_def update_pool_heap)
  have dt: "dom (threads w') = dom (threads w1) - {t}" "t \<in> dom (threads w1)"
    using h(4) by (auto simp: stop(8) update_pool_rest e(5))
  have dl: "dom (loops w') = dom (loops w1) - {l}" "l \<in> dom (loops w1)"
    using h(3) by (auto simp: stop(8) update_pool_rest e(6))
  from e(7) obtain v where cx: "contexts w2 = (contexts w1)(x := v)"
    and v: "case v of None \<Rightarrow> True
      | Some n' \<Rightarrow> (case contexts w1 x of None \<Rightarrow> False | Some n \<Rightarrow> n' < n)"
    by blast
  have dc: "dom (contexts w1) - {x} \<subseteq> dom (contexts w')" "dom (contexts w') \<subseteq> dom (contexts w1)"
    using h(2) by (auto simp: stop(8) update_pool_rest cx split: if_splits)
  have cv: "contexts w' x = v" by (simp add: stop(8) update_pool_rest cx)
  from o have cw: "contexts w1 = contexts w" by simp
  obtain n where n: "contexts w x = Some n" using h(2) cw by auto
  have "contexts w' x = contexts w2 x" by (simp add: stop(8) update_pool_rest)
  with e(8) n cw have rel: "contexts w' x = (if n \<le> 2 then None else Some (n - 2))"
    by simp
  have oc: "contexts w' y = contexts w y" if "y \<noteq> x" for y
    using that by (simp add: stop(8) update_pool_rest cx cw)
  have "schedule_stopped (NeedScheduleThread a needed) w w'"
    unfolding schedule_stopped_def
    using stop(3,4) h(1) c0 dt dl dc n rel oc oth same(2,3,4) by auto
  with i' show ?thesis by simp
qed

lemma step_schedule:
  assumes inv: "schedule_invariant w" and st: "step c w = Inr w'"
  shows "schedule_invariant w' \<and>
    (schedule_quiet w w' \<or> schedule_started c w w' \<or> schedule_stopped c w w' \<or>
     schedule_counted c w w')"
proof -
  have fr: "schedule_frame w w' \<Longrightarrow> ?thesis"
    using frame_invariant[OF inv] frame_quiet by blast
  note fresh = inv_fresh[OF inv]
  show ?thesis
  proof (cases c)
    case New
    with st frame_new[OF fresh] fr show ?thesis by auto
  next
    case (NewFull m x)
    with st frame_new_full[OF fresh] fr show ?thesis by auto
  next
    case (Prepare a e)
    with st frame_prepare fr show ?thesis by auto
  next
    case (Cleanup a)
    with st frame_cleanup fr show ?thesis by auto
  next
    case (Push a f d e)
    with st frame_push fr show ?thesis by auto
  next
    case (Join a h)
    with st frame_join fr show ?thesis by auto
  next
    case (NeedScheduleThread a needed)
    with st obtain r where "gst_task_pool_need_schedule_thread a needed w = Inr (r, w')"
      by (auto split: sum.splits)
    from need_step[OF inv this] NeedScheduleThread show ?thesis by simp
  next
    case (GetScheduleContext a)
    with st frame_get_context fr show ?thesis by auto
  next
    case GetDefault
    with st frame_get_default[OF fresh] fr show ?thesis by auto
  next
    case (WorkerStart a)
    with st frame_worker_start fr show ?thesis by auto
  next
    case (WorkerFinish a i)
    with st frame_worker_finish fr show ?thesis by auto
  next
    case (WorkerLeave a)
    with st frame_worker_leave fr show ?thesis by auto
  next
    case (ScheduleThreadRuns a)
    with st frame_thread_runs fr show ?thesis by auto
  qed
qed

lemma run_invariant:
  "schedule_invariant w \<Longrightarrow> run cs w = Inr w' \<Longrightarrow> schedule_invariant w'"
proof (induction cs arbitrary: w)
  case Nil
  then show ?case by simp
next
  case (Cons c cs)
  from Cons.prems(2) obtain w1 where s: "step c w = Inr w1" and r: "run cs w1 = Inr w'"
    by (auto split: sum.splits)
  from step_schedule[OF Cons.prems(1) s] have "schedule_invariant w1" by simp
  from Cons.IH[OF this r] show ?case .
qed

lemma process_start_invariant: "schedule_invariant (process_start spawn wakes)"
  by (simp add: schedule_invariant_def process_start_def)

text \<open>
  The invariant of C3 on the calls that return.  Take any process reached from the start
  by calls of the interface and steps of the scheduler, and any further call or step that
  returns.  Before and after it the invariant holds:
  every pool either has a positive count and a live context, loop and thread, or count 0
  and none of them, and every live schedule thread and loop belongs to a pool.  And the
  step is of one of four kinds: it leaves all counts and the sets of live threads, loops
  and contexts alone; or it is an enable that takes a count from 0 to 1 and creates the
  three; or it is a disable that takes a count from 1 to 0, joins the thread, frees the
  loop and releases the context; or it is an enable or disable that changes a positive
  count by one and creates or joins nothing.
\<close>

theorem schedule_thread_iff_count:
  assumes "run cs (process_start spawn wakes) = Inr w" and "step c w = Inr w'"
  shows "schedule_invariant w \<and> schedule_invariant w' \<and>
    (schedule_quiet w w' \<or> schedule_started c w w' \<or> schedule_stopped c w w' \<or>
     schedule_counted c w w')"
proof -
  from run_invariant[OF process_start_invariant assms(1)] have "schedule_invariant w" .
  with step_schedule[OF this assms(2)] show ?thesis by simp
qed

theorem schedule_thread_iff_count_witness:
  "\<exists>w w'. stopping_run = Inr w \<and> step (NeedScheduleThread 1 False) w = Inr w' \<and>
     schedule_count w 1 = 1 \<and> schedule_count w' 1 = 0 \<and>
     contexts w 3 = Some 3 \<and> contexts w' 3 = Some 1 \<and>
     schedule_invariant w \<and> schedule_invariant w' \<and>
     schedule_stopped (NeedScheduleThread 1 False) w w'"
proof -
  have "case stopping_run of Inl _ \<Rightarrow> False
     | Inr w \<Rightarrow> (case step (NeedScheduleThread 1 False) w of Inl _ \<Rightarrow> False
        | Inr w' \<Rightarrow> schedule_count w 1 = 1 \<and> schedule_count w' 1 = 0 \<and>
            contexts w 3 = Some 3 \<and> contexts w' 3 = Some 1)"
    by code_simp
  then obtain w w' where r: "stopping_run = Inr w"
    and s: "step (NeedScheduleThread 1 False) w = Inr w'"
    and c: "schedule_count w 1 = 1" "schedule_count w' 1 = 0"
    and x: "contexts w 3 = Some 3" "contexts w' 3 = Some 1"
    by (auto split: sum.splits)
  from schedule_thread_iff_count[OF r[unfolded stopping_run_def] s]
  have i: "schedule_invariant w" "schedule_invariant w'"
    and d: "schedule_quiet w w' \<or> schedule_started (NeedScheduleThread 1 False) w w' \<or>
      schedule_stopped (NeedScheduleThread 1 False) w w' \<or>
      schedule_counted (NeedScheduleThread 1 False) w w'"
    by simp_all
  from c have "\<not> schedule_quiet w w'" by (auto simp: schedule_quiet_def)
  moreover have "\<not> schedule_started (NeedScheduleThread 1 False) w w'"
    by (simp add: schedule_started_def)
  moreover from c have "\<not> schedule_counted (NeedScheduleThread 1 False) w w'"
    by (simp add: schedule_counted_def)
  ultimately have "schedule_stopped (NeedScheduleThread 1 False) w w'" using d by blast
  with r s c x i show ?thesis by blast
qed

subsection \<open>The default pool is one instance\<close>

lemma static_simps:
  "default_pool (g_critical w) = default_pool w"
  "default_pool (g_warning w) = default_pool w"
  "default_pool (gst_object_ref a w) = default_pool w"
  "default_pool (gst_object_unref a w) = default_pool w"
  "default_pool (snd (gst_task_pool_new w)) = default_pool w"
  "default_pool (snd (gst_task_pool_new_full m x w)) = default_pool w"
  "default_pool (gst_task_pool_join a h w) = default_pool w"
  "default_pool (snd (gst_task_pool_get_schedule_context a w)) = default_pool w"
  "default_pool (worker_start_at a w) = default_pool w"
  "default_pool (worker_finish_at a i w) = default_pool w"
  "default_pool (worker_leave_at a w) = default_pool w"
  "default_pool (schedule_thread_runs a w) = default_pool w"
  by (auto simp: g_critical_def g_warning_def gst_object_ref_def gst_object_unref_def
      gst_task_pool_finalize_def gst_task_pool_new_def g_object_newv_def
      gst_task_pool_new_full_def update_pool_def gst_task_pool_join_def default_join_def
      gst_task_pool_get_schedule_context_def g_main_context_ref_def worker_start_at_def
      worker_start_def default_func_call_def worker_finish_at_def worker_finish_def
      default_func_return_def worker_leave_at_def worker_leave_def
      schedule_thread_runs_def gst_task_pool_schedule_func_def main_loop_running_cb_def Let_def
      split: option.splits prod.splits list.splits vfunc.splits if_splits)

lemma prepare_static:
  "default_pool (snd (gst_task_pool_prepare a error w)) = default_pool w"
  using pool_new_world[of "max_threads (priv (the (heap w a)))"
      "exclusive (priv (the (heap w a)))" NullLoc w]
  by (auto simp: gst_task_pool_prepare_def default_prepare_def g_critical_def Let_def
      case_prod_beta split: option.splits vfunc.splits)

lemma cleanup_static:
  "gst_task_pool_cleanup a w = Inr w' \<Longrightarrow> default_pool w' = default_pool w"
  by (auto simp: gst_task_pool_cleanup_def default_cleanup_def g_thread_pool_free_def
      fold_default_func fold_default_func_return g_critical_def Let_def
      split: option.splits prod.splits vfunc.splits sum.splits if_splits)

lemma push_static:
  "default_pool (snd (snd (gst_task_pool_push a f d error w))) = default_pool w"
proof (cases "heap w a")
  case None
  then show ?thesis by (simp add: gst_task_pool_push_def g_critical_def)
next
  case (Some p)
  show ?thesis
  proof (cases "pool p")
    case None
    with Some show ?thesis
      by (auto simp: gst_task_pool_push_def default_push_def g_warning_def
          split: option.splits vfunc.splits)
  next
    case (Some tp)
    from pool_push_world[of tp "\<lparr>func = f, user_data = d\<rparr>" error w] obtain r where
      "snd (snd (g_thread_pool_push tp \<lparr>func = f, user_data = d\<rparr> error w)) = w\<lparr>os_spawn := r\<rparr>"
      by blast
    with Some \<open>heap w a = Some p\<close> show ?thesis
      by (auto simp: gst_task_pool_push_def default_push_def g_warning_def Let_def
          case_prod_beta split: option.splits vfunc.splits)
  qed
qed

lemma get_default_static:
  "default_pool (snd (gst_task_pool_get_default w)) = Some (fst (gst_task_pool_get_default w))"
  by (cases "default_pool w")
     (simp_all add: gst_task_pool_get_default_def static_simps(3) case_prod_beta Let_def)

lemma get_default_known:
  "default_pool w = Some a \<Longrightarrow> gst_task_pool_get_default w = (a, gst_object_ref a w)"
  by (simp add: gst_task_pool_get_default_def)

lemma get_default_keeps:
  assumes "default_pool w = Some d" "gst_task_pool_get_default w = (d', w1)"
  shows "default_pool w1 = Some d"
proof -
  from assms have "w1 = gst_object_ref d w" by (auto simp: gst_task_pool_get_default_def)
  with assms(1) show ?thesis by (simp add: static_simps)
qed

lemma need_static:
  assumes "default_pool w = Some d"
    and "gst_task_pool_need_schedule_thread a needed w = Inr (r, w')"
  shows "default_pool w' = Some d"
  using assms(2)
proof (cases rule: need_cases)
  case reject
  with assms(1) show ?thesis by (simp add: static_simps)
next
  case (default w1 p)
  from get_default_keeps[OF assms(1) default(1)] default(3) show ?thesis
    by (simp add: static_simps)
next
  case (start d' w1 p pv w2)
  from get_default_keeps[OF assms(1) start(1)] start_effect(3)[OF start(7)] start(8)
  show ?thesis by (simp add: update_pool_rest)
next
  case (inc d' w1 p)
  from get_default_keeps[OF assms(1) inc(1)] inc(8) show ?thesis
    by (simp add: update_pool_rest)
next
  case (dec d' w1 p)
  from get_default_keeps[OF assms(1) dec(1)] dec(7) show ?thesis
    by (simp add: update_pool_rest)
next
  case (stop d' w1 p pv w2)
  have "default_pool w2 = default_pool w1"
    using stop(7)
    by (auto simp: schedule_thread_stop_def g_main_loop_quit_def g_thread_join_def
        g_main_loop_unref_def unref_rest g_critical_def
        split: option.splits sum.splits tstate.splits bool.splits prod.splits)
  with get_default_keeps[OF assms(1) stop(1)] stop(8) show ?thesis
    by (simp add: update_pool_rest)
qed

lemma step_static:
  assumes "default_pool w = Some d" "step c w = Inr w'"
  shows "default_pool w' = Some d"
proof (cases c)
  case (NeedScheduleThread a needed)
  with assms(2) obtain r where "gst_task_pool_need_schedule_thread a needed w = Inr (r, w')"
    by (auto split: sum.splits)
  from need_static[OF assms(1) this] show ?thesis .
next
  case GetDefault
  with assms(2) have "gst_task_pool_get_default w = (fst (gst_task_pool_get_default w), w')"
    by (cases "gst_task_pool_get_default w") auto
  from get_default_keeps[OF assms(1) this] show ?thesis .
qed (use assms in \<open>auto simp: static_simps prepare_static push_static dest: cleanup_static\<close>)

lemma run_static:
  "default_pool w = Some d \<Longrightarrow> run cs w = Inr w' \<Longrightarrow> default_pool w' = Some d"
proof (induction cs arbitrary: w)
  case Nil
  then show ?case by simp
next
  case (Cons c cs)
  from Cons.prems(2) obtain w1 where s: "step c w = Inr w1" and r: "run cs w1 = Inr w'"
    by (auto split: sum.splits)
  from Cons.IH[OF step_static[OF Cons.prems(1) s] r] show ?case .
qed

text \<open>
  C9.  \<open>gst_task_pool_get_default\<close> returns the address its static variable holds
  afterwards, and whatever calls and steps follow, every later call returns that same
  address.  The first call (static variable \<open>NULL\<close>) creates one new instance at a fresh
  address and prepares it with an unbounded, non-exclusive thread pool; a call that finds
  the variable set creates nothing and prepares nothing, and adds one reference to the
  instance.
\<close>

theorem get_default_same_instance:
  "default_pool (snd (gst_task_pool_get_default w)) = Some (fst (gst_task_pool_get_default w))
   \<and> (run cs (snd (gst_task_pool_get_default w)) = Inr w' \<longrightarrow>
        fst (gst_task_pool_get_default w') = fst (gst_task_pool_get_default w))
   \<and> (default_pool w = None \<longrightarrow>
        fst (gst_task_pool_get_default w) = next_addr w \<and>
        next_addr (snd (gst_task_pool_get_default w)) = Suc (next_addr w) \<and>
        map_option pool (heap (snd (gst_task_pool_get_default w)) (next_addr w)) =
          Some (Some default_thread_pool))
   \<and> (default_pool w \<noteq> None \<longrightarrow>
        next_addr (snd (gst_task_pool_get_default w)) = next_addr w \<and>
        (\<forall>b. map_option pool (heap (snd (gst_task_pool_get_default w)) b) =
             map_option pool (heap w b)))
   \<and> (default_pool w = Some a \<and> heap w a = Some p \<and> 0 < ref_count p \<longrightarrow>
        heap (snd (gst_task_pool_get_default w)) a = Some (p\<lparr>ref_count := Suc (ref_count p)\<rparr>))"
proof (intro conjI impI)
  show "default_pool (snd (gst_task_pool_get_default w)) =
      Some (fst (gst_task_pool_get_default w))"
    by (rule get_default_static)
next
  assume "run cs (snd (gst_task_pool_get_default w)) = Inr w'"
  from run_static[OF get_default_static this]
  show "fst (gst_task_pool_get_default w') = fst (gst_task_pool_get_default w)"
    by (simp add: get_default_known)
next
  assume n: "default_pool w = None"
  then show "fst (gst_task_pool_get_default w) = next_addr w"
    by (simp add: get_default_fst)
  from n show "next_addr (snd (gst_task_pool_get_default w)) = Suc (next_addr w)"
    by (auto simp: gst_task_pool_get_default_def gst_task_pool_new_def g_object_newv_def
      gst_task_pool_prepare_def default_prepare_def g_thread_pool_new_def gst_object_ref_def
      g_critical_def gst_task_pool_init_def gst_task_pool_class_init_def Let_def
      split: option.splits prod.splits if_splits vfunc.splits)
  from n show "map_option pool (heap (snd (gst_task_pool_get_default w)) (next_addr w)) =
          Some (Some default_thread_pool)"
    by (auto simp: gst_task_pool_get_default_def gst_task_pool_new_def g_object_newv_def
      gst_task_pool_prepare_def default_prepare_def g_thread_pool_new_def gst_object_ref_def
      g_critical_def gst_task_pool_init_def gst_task_pool_class_init_def Let_def
      default_thread_pool_def
      split: option.splits prod.splits if_splits vfunc.splits)
next
  assume "default_pool w \<noteq> None"
  then obtain a where a: "default_pool w = Some a" by auto
  show "next_addr (snd (gst_task_pool_get_default w)) = next_addr w"
    by (auto simp: get_default_known[OF a] gst_object_ref_def g_critical_def split: option.splits)
  show "\<forall>b. map_option pool (heap (snd (gst_task_pool_get_default w)) b) =
             map_option pool (heap w b)"
    by (auto simp: get_default_known[OF a] gst_object_ref_def g_critical_def split: option.splits)
next
  assume "default_pool w = Some a \<and> heap w a = Some p \<and> 0 < ref_count p"
  then show "heap (snd (gst_task_pool_get_default w)) a =
      Some (p\<lparr>ref_count := Suc (ref_count p)\<rparr>)"
    by (simp add: gst_task_pool_get_default_def gst_object_ref_def)
qed

theorem get_default_same_instance_witness:
  "fst (gst_task_pool_get_default (process_start [] [])) = 1 \<and>
   default_pool default_pool_world = Some 1 \<and>
   map_option pool (heap default_pool_world 1) = Some (Some default_thread_pool) \<and>
   (\<exists>w'. run busy_calls default_pool_world = Inr w' \<and>
      fst (gst_task_pool_get_default w') = 1 \<and>
      next_addr (snd (gst_task_pool_get_default w')) = next_addr w') \<and>
   map_option ref_count (heap default_pool_world 1) = Some 2 \<and>
   map_option ref_count (heap (snd (gst_task_pool_get_default default_pool_world)) 1) = Some 3"
proof -
  have n: "default_pool (process_start [] []) = None" "next_addr (process_start [] []) = 1"
    by (simp_all add: process_start_def)
  have "case run busy_calls default_pool_world of Inl _ \<Rightarrow> False | Inr w' \<Rightarrow> True"
    by code_simp
  then obtain w' where r: "run busy_calls default_pool_world = Inr w'"
    by (auto split: sum.splits)
  note t = get_default_same_instance[of "process_start [] []" busy_calls w' 1 gst_task_pool_init]
  from t n have 1: "fst (gst_task_pool_get_default (process_start [] [])) = 1"
    "map_option pool (heap default_pool_world 1) = Some (Some default_thread_pool)"
    "default_pool default_pool_world = Some 1"
    by (simp_all add: default_pool_world_def)
  from t r 1 have 2: "fst (gst_task_pool_get_default w') = 1"
    by (simp add: default_pool_world_def)
  from run_static[OF 1(3) r] have "default_pool w' \<noteq> None" by simp
  with get_default_same_instance[of w' "[]" w' 1 gst_task_pool_init]
  have 3: "next_addr (snd (gst_task_pool_get_default w')) = next_addr w'" by simp
  have h: "heap default_pool_world 1 =
      Some (gst_task_pool_init\<lparr>ref_count := 2, pool := Some default_thread_pool\<rparr>)"
    by code_simp
  have 4: "map_option ref_count (heap default_pool_world 1) = Some 2" by code_simp
  from get_default_same_instance[of default_pool_world "[]" default_pool_world 1
      "gst_task_pool_init\<lparr>ref_count := 2, pool := Some default_thread_pool\<rparr>"] 1(3) h
  have 5: "map_option ref_count (heap (snd (gst_task_pool_get_default default_pool_world)) 1)
      = Some 3"
    by simp
  from 1 2 3 4 5 r show ?thesis by blast
qed

end
